theory Spec2Isabelle
  imports Main "HOL-Library.Sublist"
begin

section \<open>Values, matches and generators\<close>

text \<open>
  The library is dynamically typed. A converted value is any Python object; the ones the
  library itself builds are integers, strings, lists, dictionaries (in insertion order), the
  constant \<open>NON_CAPTURING\<close>, \<open>None\<close> and \<open>Match\<close> objects. A character of a Python string is
  modelled by a \<open>char\<close> (code points 0 to 255).
\<close>

datatype error = IndexError | AttributeError | TypeError | NotImplementedError | ValueError

datatype val =
    VNone
  | VInt int
  | VStr string
  | VList "val list"
  | VDict "(string \<times> val) list"
  | NON_CAPTURING
  | VMatch pmatch
and pmatch =
    Match (converted: val) (captured: string) (rest: string)

text \<open>\<open>Match.replace_converted\<close>\<close>

definition replace_converted :: "pmatch \<Rightarrow> val \<Rightarrow> pmatch" where
  "replace_converted self c = Match c (captured self) (rest self)"

text \<open>
  A generator is observed through the items it yields and the way it stops: it returns
  (\<open>Done\<close>), it raises (\<open>Raised e\<close>), or it is still running when the bound on the nesting
  depth of the calls is reached (\<open>Cutoff\<close>). Yielding is the only effect of the generators
  of the library, so a generator is the list of its items with its ending.
\<close>

datatype ending = Done | Raised error | Cutoff

type_synonym 'a gen = "'a list \<times> ending"

text \<open>\<open>for x in xs: yield from body(x)\<close> over a list.\<close>

fun for_each :: "('a \<Rightarrow> 'b gen) \<Rightarrow> 'a list \<Rightarrow> 'b gen" where
  "for_each body [] = ([], Done)"
| "for_each body (x # xs) =
     (case body x of
        (ys, Done) \<Rightarrow> (case for_each body xs of (zs, e) \<Rightarrow> (ys @ zs, e))
      | (ys, e) \<Rightarrow> (ys, e))"

text \<open>
  \<open>for x in g: yield from body(x)\<close> over a generator \<open>g\<close>: the items \<open>g\<close> yields before
  it stops are processed in order, then the ending of \<open>g\<close> is the ending of the loop.
\<close>

definition for_gen :: "'a gen \<Rightarrow> ('a \<Rightarrow> 'b gen) \<Rightarrow> 'b gen" where
  "for_gen g body =
     (case for_each body (fst g) of
        (ys, Done) \<Rightarrow> (ys, snd g)
      | (ys, e) \<Rightarrow> (ys, e))"

text \<open>One generator body after another.\<close>

definition then_gen :: "'a gen \<Rightarrow> 'a gen \<Rightarrow> 'a gen" where
  "then_gen g h = (case g of (xs, Done) \<Rightarrow> (xs @ fst h, snd h) | (xs, e) \<Rightarrow> (xs, e))"

section \<open>The leaf matchers\<close>

text \<open>The class \<open>\s\<close> of a Python \<open>str\<close> pattern, on the code points below 256.\<close>

definition is_space :: "char \<Rightarrow> bool" where
  "is_space c =
     (let n = (of_char c :: nat)
      in (9 \<le> n \<and> n \<le> 13) \<or> (28 \<le> n \<and> n \<le> 32) \<or> n = 133 \<or> n = 160)"

text \<open>The class \<open>[0-9]\<close>; below 256 it is also the class \<open>\d\<close>.\<close>

definition is_digit :: "char \<Rightarrow> bool" where
  "is_digit c = (let n = (of_char c :: nat) in 48 \<le> n \<and> n \<le> 57)"

text \<open>
  \<open>re.match(r'^\s*$', string)\<close>: the greedy \<open>\s*\<close> reaches the end exactly when every
  character is white space.
\<close>

definition end_match :: "string \<Rightarrow> pmatch gen" where
  "end_match s =
     (if list_all is_space s then ([Match NON_CAPTURING s []], Done) else ([], Done))"

text \<open>
  \<open>re.match(rf'^\s*{escaped}', string)\<close>: the greedy \<open>\s*\<close> first takes all the leading
  white space and gives characters back one at a time until the literal follows.
  \<open>exact_end ex s k\<close> tries \<open>k\<close>, \<open>k - 1\<close>, ..., \<open>0\<close> characters of white space and returns the
  end of the match.
\<close>

fun exact_end :: "string \<Rightarrow> string \<Rightarrow> nat \<Rightarrow> nat option" where
  "exact_end ex s 0 = (if prefix ex s then Some (length ex) else None)"
| "exact_end ex s (Suc k) =
     (if prefix ex (drop (Suc k) s) then Some (Suc k + length ex) else exact_end ex s k)"

definition exact_match :: "string \<Rightarrow> string \<Rightarrow> pmatch gen" where
  "exact_match ex s =
     (case exact_end ex s (length (takeWhile is_space s)) of
        Some e \<Rightarrow> ([Match (VStr ex) (take e s) (drop e s)], Done)
      | None \<Rightarrow> ([], Done))"

text \<open>\<open>int(...)\<close> on an optional sign followed by decimal digits.\<close>

definition digit_val :: "char \<Rightarrow> int" where
  "digit_val c = int (of_char c) - 48"

definition int_of_digits :: "string \<Rightarrow> int" where
  "int_of_digits ds = foldl (\<lambda>a c. 10 * a + digit_val c) 0 ds"

fun py_int :: "string \<Rightarrow> int" where
  "py_int (c # ds) =
     (if c = CHR ''-'' then - int_of_digits ds
      else if c = CHR ''+'' then int_of_digits ds
      else int_of_digits (c # ds))"
| "py_int [] = 0"

text \<open>
  \<open>re.match(r'^\s*([+-]?[0-9]+)(?=\D|$)', string)\<close>. No white space is a sign or a digit,
  so \<open>\s*\<close> keeps all the leading white space; the sign is taken when it is there and then
  needs a digit after it; the greedy \<open>[0-9]+\<close> takes the whole run of digits, after which the
  lookahead holds (a shorter run is followed by a digit and fails it).
  \<open>integer_token\<close> returns group 1 of the match.
\<close>

definition integer_token :: "string \<Rightarrow> string option" where
  "integer_token s =
     (let r = dropWhile is_space s;
          sg = (case r of [] \<Rightarrow> [] | c # _ \<Rightarrow> if c = CHR ''+'' \<or> c = CHR ''-'' then [c] else []);
          ds = takeWhile is_digit (drop (length sg) r)
      in if ds = [] then None else Some (sg @ ds))"

definition integer_match :: "string \<Rightarrow> pmatch gen" where
  "integer_match s =
     (case integer_token s of
        Some tok \<Rightarrow>
          (let e = length (takeWhile is_space s) + length tok
           in ([Match (VInt (py_int tok)) (take e s) (drop e s)], Done))
      | None \<Rightarrow> ([], Done))"

text \<open>
  \<open>re.match(r'^\s*(\S+)(?=\s|$)', string)\<close>: all the leading white space, then the whole
  run of characters that are not white space, which must not be empty.
\<close>

definition word_match :: "string \<Rightarrow> pmatch gen" where
  "word_match s =
     (let w = takeWhile (\<lambda>c. \<not> is_space c) (dropWhile is_space s);
          e = length (takeWhile is_space s) + length w
      in if w = [] then ([], Done) else ([Match (VStr w) (take e s) (drop e s)], Done))"

text \<open>\<open>String.match\<close>: \<open>for i in range(len(string)-1, 0, -1)\<close>.\<close>

definition split_at :: "string \<Rightarrow> nat \<Rightarrow> pmatch" where
  "split_at s i = Match (VStr (take i s)) (take i s) (drop i s)"

definition string_match :: "string \<Rightarrow> pmatch gen" where
  "string_match s = (map (split_at s) (rev [1 ..< length s]), Done)"

text \<open>
  \<open>StringWithout.match\<close>. The first loop leaves in \<open>first_bad_index\<close> the index of the
  first excluded character, or the last index of the string when the loop ends without
  \<open>break\<close>. The string is not empty there.
\<close>

fun first_bad_index :: "char set \<Rightarrow> string \<Rightarrow> nat" where
  "first_bad_index exclude [] = 0"
| "first_bad_index exclude [c] = 0"
| "first_bad_index exclude (c # cs) =
     (if c \<in> exclude then 0 else Suc (first_bad_index exclude cs))"

definition string_without_match :: "char set \<Rightarrow> string \<Rightarrow> pmatch gen" where
  "string_without_match exclude s =
     (if s = [] then ([], Done)
      else (map (split_at s) [1 ..< first_bad_index exclude s + 1], Done))"

section \<open>Specs and the traversal of Sequence\<close>

text \<open>
  The objects that stand where a spec is expected: the classes of \<open>arg_parse_base\<close> and
  the convenience values that \<open>_convert\<close> of \<open>arg_parse\<close> rewrites (a list, a dict in
  insertion order, a string, the types \<open>int\<close> and \<open>str\<close>, anything else). The function of a
  \<open>Transform\<close> returns a value or raises.
\<close>

datatype spec =
    End
  | Exact string
  | Transform spec "val \<Rightarrow> error + val"
  | NonCapturing spec
  | Integer
  | Word
  | String
  | StringWithout "char set"
  | Either "spec list"
  | Sequence "spec list"
  | ZeroOrMore spec
  | OneOrMore spec
  | NamedOr "(string \<times> spec) list"
  | NamedAnd "(string \<times> spec) list"
  | PyList "spec list"
  | PyDict "(string \<times> spec) list"
  | PyStr string
  | PyIntType
  | PyStrType
  | PyOther

text \<open>
  The functions below take the matcher of the children, \<open>mt child string\<close>, as a
  parameter; \<open>match\<close> passes itself.

  One step of the \<open>while\<close> loop of \<open>Sequence.breadth_first\<close>: every leaf of the layer is
  extended by every match of the child on \<open>leaf[-1].rest\<close>. The list is built before the
  loop goes on, so a child that raises or does not return ends the whole traversal.
  Every \<open>Match\<close> is true, so the filter \<open>if m\<close> keeps every match.
\<close>

fun extend_leaves ::
  "(spec \<Rightarrow> string \<Rightarrow> pmatch gen) \<Rightarrow> spec \<Rightarrow> pmatch list list \<Rightarrow> ending + pmatch list list"
where
  "extend_leaves mt child [] = Inr []"
| "extend_leaves mt child (leaf # leaves) =
     (if leaf = [] then Inl (Raised IndexError)
      else case mt child (rest (last leaf)) of
        (ms, Done) \<Rightarrow>
          (case extend_leaves mt child leaves of
             Inr new_leaves \<Rightarrow> Inr (map (\<lambda>m. leaf @ [m]) ms @ new_leaves)
           | Inl e \<Rightarrow> Inl e)
      | (ms, e) \<Rightarrow> Inl e)"

text \<open>\<open>while current_leaves and children\<close>\<close>

fun bf_loop ::
  "(spec \<Rightarrow> string \<Rightarrow> pmatch gen) \<Rightarrow> pmatch list list \<Rightarrow> spec list \<Rightarrow> ending + pmatch list list"
where
  "bf_loop mt current_leaves [] = Inr current_leaves"
| "bf_loop mt current_leaves (child # children) =
     (if current_leaves = [] then Inr []
      else case extend_leaves mt child current_leaves of
        Inr new_leaves \<Rightarrow> bf_loop mt new_leaves children
      | Inl e \<Rightarrow> Inl e)"

text \<open>The body of the last loop of \<open>breadth_first\<close>, which builds the result of a path.\<close>

definition build :: "pmatch list \<Rightarrow> pmatch" where
  "build subtree =
     Match (VList (filter (\<lambda>v. v \<noteq> NON_CAPTURING) (map converted subtree)))
           (concat (map captured subtree))
           (rest (last subtree))"

definition yield_subtree :: "pmatch list \<Rightarrow> pmatch gen" where
  "yield_subtree subtree =
     (if subtree = [] then ([], Raised IndexError) else ([build subtree], Done))"

definition breadth_first ::
  "(spec \<Rightarrow> string \<Rightarrow> pmatch gen) \<Rightarrow> spec list \<Rightarrow> string \<Rightarrow> pmatch gen"
where
  "breadth_first mt sequence s =
     (case sequence of
        [] \<Rightarrow> ([], Raised IndexError)
      | first # children \<Rightarrow>
          (case mt first s of
             (ms, Done) \<Rightarrow>
               (case bf_loop mt (map (\<lambda>m. [m]) ms) children of
                  Inr current_leaves \<Rightarrow> for_each yield_subtree current_leaves
                | Inl e \<Rightarrow> ([], e))
           | (ms, e) \<Rightarrow> ([], e)))"

definition depth_first :: "string \<Rightarrow> pmatch gen" where
  "depth_first s = ([], Raised NotImplementedError)"

text \<open>\<open>Sequence.match\<close> with its keyword \<open>greedy\<close>.\<close>

definition sequence_match ::
  "(spec \<Rightarrow> string \<Rightarrow> pmatch gen) \<Rightarrow> bool \<Rightarrow> spec list \<Rightarrow> string \<Rightarrow> pmatch gen"
where
  "sequence_match mt greedy sequence s =
     then_gen (if sequence = [] then ([Match (VList []) [] s], Done) else ([], Done))
              (if greedy then depth_first s else breadth_first mt sequence s)"

section \<open>Repetition\<close>

text \<open>
  \<open>ZeroOrMore.traverse\<close>. The recursion goes on as long as the subspec matches, so it
  carries the bound \<open>k\<close> on its depth. \<open>sub\<close> is the matcher of the subspec.
\<close>

fun traverse :: "nat \<Rightarrow> (string \<Rightarrow> pmatch gen) \<Rightarrow> string \<Rightarrow> pmatch list \<Rightarrow> pmatch list gen" where
  "traverse 0 sub s history = ([], Cutoff)"
| "traverse (Suc k) sub s history =
     then_gen ([history], Done)
              (for_gen (sub s) (\<lambda>m. traverse k sub (rest m) (history @ [m])))"

definition build_history :: "string \<Rightarrow> pmatch list \<Rightarrow> pmatch" where
  "build_history s history =
     Match (VList (filter (\<lambda>v. v \<noteq> NON_CAPTURING) (map converted history)))
           (concat (map captured history))
           (if history = [] then s else rest (last history))"

text \<open>\<open>ZeroOrMore.match\<close>\<close>

definition zero_or_more_match :: "nat \<Rightarrow> (string \<Rightarrow> pmatch gen) \<Rightarrow> string \<Rightarrow> pmatch gen" where
  "zero_or_more_match k sub s =
     for_gen (traverse k sub s []) (\<lambda>history. ([build_history s history], Done))"

text \<open>\<open>OneOrMore.match\<close>, on the generator of \<open>ZeroOrMore(self.subspec).match(string)\<close>.\<close>

definition one_or_more_match :: "pmatch gen \<Rightarrow> pmatch gen" where
  "one_or_more_match g =
     for_gen g (\<lambda>m. if converted m \<noteq> VList [] then ([m], Done) else ([], Done))"

section \<open>The method match\<close>

text \<open>
  \<open>match n spec string\<close> is the generator \<open>spec.match(string)\<close> observed with at most \<open>n\<close>
  nested calls of \<open>match\<close> on subspecs and of \<open>traverse\<close>. The leaves call nothing. An
  object that is not a \<open>Spec\<close> has no attribute \<open>match\<close>. The keys of a dictionary are
  distinct. The constant \<open>DEBUG\<close> of the module is \<open>False\<close>, so no \<open>match\<close> is wrapped by the
  tracing generator of \<open>Spec.__new__\<close>, and the recursion limit of the interpreter is left out:
  a generator that would exhaust it is one that every bound cuts off.
\<close>

fun match :: "nat \<Rightarrow> spec \<Rightarrow> string \<Rightarrow> pmatch gen" where
  "match n End s = end_match s"
| "match n (Exact ex) s = exact_match ex s"
| "match n Integer s = integer_match s"
| "match n Word s = word_match s"
| "match n String s = string_match s"
| "match n (StringWithout exclude) s = string_without_match exclude s"
| "match n (PyList xs) s = ([], Raised AttributeError)"
| "match n (PyDict kvs) s = ([], Raised AttributeError)"
| "match n (PyStr x) s = ([], Raised AttributeError)"
| "match n PyIntType s = ([], Raised AttributeError)"
| "match n PyStrType s = ([], Raised AttributeError)"
| "match n PyOther s = ([], Raised AttributeError)"
| "match (Suc n) (Transform sp transform_function) s =
     for_gen (match n sp s)
       (\<lambda>m. case transform_function (converted m) of
               Inr v \<Rightarrow> ([replace_converted m v], Done)
             | Inl e \<Rightarrow> ([], Raised e))"
| "match (Suc n) (NonCapturing subspec) s =
     for_gen (match n subspec s) (\<lambda>a_match. ([replace_converted a_match NON_CAPTURING], Done))"
| "match (Suc n) (Either options) s = for_each (\<lambda>sp. match n sp s) options"
| "match (Suc n) (Sequence sequence) s = sequence_match (match n) False sequence s"
| "match (Suc n) (ZeroOrMore subspec) s = zero_or_more_match n (match n subspec) s"
| "match (Suc n) (OneOrMore subspec) s =
     one_or_more_match (zero_or_more_match n (match n subspec) s)"
| "match (Suc n) (NamedOr options_dict) s =
     for_each (\<lambda>(name, sp).
        for_gen (match n sp s)
          (\<lambda>m. ([replace_converted m (VDict [(name, converted m)])], Done)))
       options_dict"
| "match (Suc n) (NamedAnd sequence_dict) s =
     for_gen (sequence_match (match n) False (map snd sequence_dict) s)
       (\<lambda>m. case converted m of
               VList vs \<Rightarrow> ([replace_converted m (VDict (zip (map fst sequence_dict) vs))], Done)
             | _ \<Rightarrow> ([], Raised TypeError))"
| "match 0 _ s = ([], Cutoff)"

text \<open>\<open>Spec.first_match\<close>: \<open>next\<close> runs the generator up to its first item.\<close>

definition first_match :: "nat \<Rightarrow> spec \<Rightarrow> string \<Rightarrow> (error + val) option" where
  "first_match n sp s =
     (case match n sp s of
        (m # _, _) \<Rightarrow> Some (Inr (VMatch m))
      | ([], Done) \<Rightarrow> Some (Inr VNone)
      | ([], Raised e) \<Rightarrow> Some (Inl e)
      | ([], Cutoff) \<Rightarrow> None)"

section \<open>The convenience layer\<close>

text \<open>
  \<open>_convert\<close> with the \<open>fmap\<close> of each class. \<open>Sequence(spec).fmap(_convert)\<close> converts the
  items in order and the first \<open>TypeError\<close> ends the conversion; the classes that do not
  override \<open>fmap\<close> return themselves.
\<close>

fun convert :: "spec \<Rightarrow> error + spec"
  and convert_list :: "spec list \<Rightarrow> error + spec list"
  and convert_dict :: "(string \<times> spec) list \<Rightarrow> error + (string \<times> spec) list"
where
  "convert (PyList xs) = (case convert_list xs of Inr ys \<Rightarrow> Inr (Sequence ys) | Inl e \<Rightarrow> Inl e)"
| "convert (PyDict kvs) = (case convert_dict kvs of Inr ys \<Rightarrow> Inr (NamedAnd ys) | Inl e \<Rightarrow> Inl e)"
| "convert (PyStr x) = Inr (NonCapturing (Exact x))"
| "convert End = Inr End"
| "convert (Exact ex) = Inr (Exact ex)"
| "convert (Transform sp transform_function) =
     (case convert sp of Inr sp' \<Rightarrow> Inr (Transform sp' transform_function) | Inl e \<Rightarrow> Inl e)"
| "convert (NonCapturing subspec) =
     (case convert subspec of Inr sp' \<Rightarrow> Inr (NonCapturing sp') | Inl e \<Rightarrow> Inl e)"
| "convert Integer = Inr Integer"
| "convert Word = Inr Word"
| "convert String = Inr String"
| "convert (StringWithout exclude) = Inr (StringWithout exclude)"
| "convert (Either options) =
     (case convert_list options of Inr ys \<Rightarrow> Inr (Either ys) | Inl e \<Rightarrow> Inl e)"
| "convert (Sequence sequence) =
     (case convert_list sequence of Inr ys \<Rightarrow> Inr (Sequence ys) | Inl e \<Rightarrow> Inl e)"
| "convert (ZeroOrMore subspec) =
     (case convert subspec of Inr sp' \<Rightarrow> Inr (ZeroOrMore sp') | Inl e \<Rightarrow> Inl e)"
| "convert (OneOrMore subspec) =
     (case convert subspec of Inr sp' \<Rightarrow> Inr (OneOrMore sp') | Inl e \<Rightarrow> Inl e)"
| "convert (NamedOr options_dict) =
     (case convert_dict options_dict of Inr ys \<Rightarrow> Inr (NamedOr ys) | Inl e \<Rightarrow> Inl e)"
| "convert (NamedAnd sequence_dict) =
     (case convert_dict sequence_dict of Inr ys \<Rightarrow> Inr (NamedAnd ys) | Inl e \<Rightarrow> Inl e)"
| "convert PyIntType = Inr Integer"
| "convert PyStrType = Inr String"
| "convert PyOther = Inl TypeError"
| "convert_list [] = Inr []"
| "convert_list (x # xs) =
     (case convert x of
        Inr y \<Rightarrow> (case convert_list xs of Inr ys \<Rightarrow> Inr (y # ys) | Inl e \<Rightarrow> Inl e)
      | Inl e \<Rightarrow> Inl e)"
| "convert_dict [] = Inr []"
| "convert_dict ((name, x) # kvs) =
     (case convert x of
        Inr y \<Rightarrow> (case convert_dict kvs of Inr ys \<Rightarrow> Inr ((name, y) # ys) | Inl e \<Rightarrow> Inl e)
      | Inl e \<Rightarrow> Inl e)"

text \<open>The helpers of \<open>arg_parse\<close> that the properties below use.\<close>

definition without :: "string \<Rightarrow> spec" where
  "without excluded_characters = StringWithout (set excluded_characters)"

definition one_or_more :: "spec \<Rightarrow> spec" where
  "one_or_more sp = OneOrMore sp"

definition zero_or_more :: "spec \<Rightarrow> spec" where
  "zero_or_more sp = OneOrMore sp"

text \<open>The first statement of \<open>arg_parse.match\<close>, which ends the pattern with \<open>End()\<close>.\<close>

definition end_terminated :: "spec \<Rightarrow> spec" where
  "end_terminated pattern =
     (case pattern of PyList xs \<Rightarrow> PyList (xs @ [End]) | _ \<Rightarrow> PyList [pattern, End])"

text \<open>\<open>arg_parse.match\<close>, the query of the convenience layer.\<close>

definition arg_parse_match :: "nat \<Rightarrow> spec \<Rightarrow> string \<Rightarrow> (error + val) option" where
  "arg_parse_match n pattern s =
     (case convert (end_terminated pattern) of
        Inl e \<Rightarrow> Some (Inl e)
      | Inr sp \<Rightarrow> first_match n sp s)"

section \<open>Notions used to state the properties\<close>

text \<open>A match splits the input it was given into what it captured and what it left.\<close>

definition splits_input :: "string \<Rightarrow> pmatch \<Rightarrow> bool" where
  "splits_input s m = (captured m @ rest m = s)"

text \<open>
  The same for a path of \<open>breadth_first\<close>, whose matches are chained on the rests, and for a
  history of \<open>traverse\<close> that has reached the string \<open>t\<close>.
\<close>

definition path_splits :: "string \<Rightarrow> pmatch list \<Rightarrow> bool" where
  "path_splits s path = (path \<noteq> [] \<and> concat (map captured path) @ rest (last path) = s)"

definition history_splits :: "string \<Rightarrow> string \<Rightarrow> pmatch list \<Rightarrow> bool" where
  "history_splits s t history =
     (concat (map captured history) @ t = s \<and> (history \<noteq> [] \<longrightarrow> rest (last history) = t))"

text \<open>
  The prefixes that \<open>StringWithout\<close> is about: not empty, and with no excluded character.
\<close>

definition clean_prefix :: "char set \<Rightarrow> string \<Rightarrow> bool" where
  "clean_prefix exclude p = (p \<noteq> [] \<and> set p \<inter> exclude = {})"

text \<open>
  A generator observed with a smaller bound approximates the generator observed with a larger
  one: once it has stopped, it is the same; cut off, it has yielded a prefix of the items.
  \<open>approx_leaves\<close> is the same for the layers of \<open>breadth_first\<close>, which are built whole.
\<close>

definition approx :: "'a gen \<Rightarrow> 'a gen \<Rightarrow> bool" where
  "approx g g' = (if snd g = Cutoff then prefix (fst g) (fst g') else g' = g)"

definition approx_leaves :: "ending + 'a \<Rightarrow> ending + 'a \<Rightarrow> bool" where
  "approx_leaves r r' = (r = Inl Cutoff \<or> r' = r)"

text \<open>The pattern and the message of \<open>example.py\<close>.\<close>

definition ban_pattern :: spec where
  "ban_pattern =
     PyList [PyStr ''/'', PyStr ''ban'',
             PyList [PyStr ''['', without ''|'', PyStr ''|'', without '']'', PyStr '']''],
             PyIntType]"

definition message :: string where
  "message = ''/ban [hello|world] 42''"

text \<open>
  The enumeration by nested loops that \<open>Sequence\<close> is compared with:
  \<open>for m1 in c1.match(s): for m2 in c2.match(m1.rest): ...\<close>, one path per combination.
\<close>

fun nested_loop :: "(spec \<Rightarrow> string \<Rightarrow> pmatch gen) \<Rightarrow> spec list \<Rightarrow> string \<Rightarrow> pmatch list list" where
  "nested_loop mt [] s = [[]]"
| "nested_loop mt (child # children) s =
     concat (map (\<lambda>m. map ((#) m) (nested_loop mt children (rest m))) (fst (mt child s)))"

text \<open>
  A path takes one match of each child, each child matched on the rest of the match before.
\<close>

fun admissible :: "(spec \<Rightarrow> string \<Rightarrow> pmatch gen) \<Rightarrow> spec list \<Rightarrow> string \<Rightarrow> pmatch list \<Rightarrow> bool" where
  "admissible mt [] s path = (path = [])"
| "admissible mt (child # children) s [] = False"
| "admissible mt (child # children) s (m # path) =
     (m \<in> set (fst (mt child s)) \<and> admissible mt children (rest m) path)"

text \<open>A spec whose matches never carry the marker \<open>NON_CAPTURING\<close> as converted value.\<close>

definition capturing :: "spec \<Rightarrow> bool" where
  "capturing sp = (\<forall>n s. \<forall>m \<in> set (fst (match n sp s)). converted m \<noteq> NON_CAPTURING)"

text \<open>
  The precondition of the termination property: every match of the spec, on every input and
  with every bound, leaves a rest that is strictly shorter than the input.
\<close>

definition strictly_shrinking :: "spec \<Rightarrow> bool" where
  "strictly_shrinking sp = (\<forall>n s. \<forall>m \<in> set (fst (match n sp s)). length (rest m) < length s)"

text \<open>The generator \<open>spec.match(s)\<close> stops, by returning or by raising: some bound shows its end.\<close>

definition returns :: "spec \<Rightarrow> string \<Rightarrow> bool" where
  "returns sp s = (\<exists>n. snd (match n sp s) \<noteq> Cutoff)"

text \<open>
  A spec that matches \<open>"a"\<close> and then tries a repetition that never advances:
  \<open>Either([Exact("a"), OneOrMore(NonCapturing(Exact("")))])\<close>.
\<close>

definition hanging_spec :: spec where
  "hanging_spec = Either [Exact ''a'', OneOrMore (NonCapturing (Exact []))]"

section \<open>Every match splits its input\<close>


lemma for_each_item:
  "y \<in> set (fst (for_each body xs)) \<Longrightarrow> \<exists>x \<in> set xs. y \<in> set (fst (body x))"
proof (induction xs)
  case Nil
  then show ?case by simp
next
  case (Cons x xs)
  then show ?case
    by (cases "body x"; cases "snd (body x)"; cases "for_each body xs") (auto split: ending.splits)
qed

lemma fst_for_gen: "fst (for_gen g body) = fst (for_each body (fst g))"
  unfolding for_gen_def by (simp split: prod.splits ending.splits)

lemma for_gen_item:
  "y \<in> set (fst (for_gen g body)) \<Longrightarrow> \<exists>x \<in> set (fst g). y \<in> set (fst (body x))"
  by (simp add: fst_for_gen for_each_item)

lemma then_gen_item:
  "y \<in> set (fst (then_gen g h)) \<Longrightarrow> y \<in> set (fst g) \<or> y \<in> set (fst h)"
  unfolding then_gen_def by (cases g; cases "snd g") auto

lemma leaf_splits:
  "m \<in> set (fst (end_match s)) \<Longrightarrow> splits_input s m"
  "m \<in> set (fst (exact_match ex s)) \<Longrightarrow> splits_input s m"
  "m \<in> set (fst (integer_match s)) \<Longrightarrow> splits_input s m"
  "m \<in> set (fst (word_match s)) \<Longrightarrow> splits_input s m"
  "m \<in> set (fst (string_match s)) \<Longrightarrow> splits_input s m"
  "m \<in> set (fst (string_without_match exclude s)) \<Longrightarrow> splits_input s m"
  by (auto simp: splits_input_def end_match_def exact_match_def integer_match_def word_match_def
        string_match_def string_without_match_def split_at_def Let_def
        split: if_splits option.splits)

lemma extend_leaves_splits:
  assumes mt: "\<And>t m. m \<in> set (fst (mt child t)) \<Longrightarrow> splits_input t m"
  shows "extend_leaves mt child leaves = Inr new_leaves \<Longrightarrow>
         \<forall>leaf \<in> set leaves. path_splits s leaf \<Longrightarrow>
         \<forall>leaf \<in> set new_leaves. path_splits s leaf"
proof (induction leaves arbitrary: new_leaves)
  case Nil
  then show ?case by simp
next
  case (Cons leaf leaves)
  from Cons.prems(1) obtain ms rest_new where
    ms: "mt child (rest (last leaf)) = (ms, Done)" and
    rn: "extend_leaves mt child leaves = Inr rest_new" and
    new: "new_leaves = map (\<lambda>m. leaf @ [m]) ms @ rest_new"
    by (auto split: if_splits prod.splits ending.splits sum.splits)
  have old: "\<forall>l \<in> set rest_new. path_splits s l"
    using Cons.IH[OF rn] Cons.prems(2) by simp
  have "path_splits s (leaf @ [m])" if "m \<in> set ms" for m
  proof -
    have "splits_input (rest (last leaf)) m" using mt[of m "rest (last leaf)"] ms that by simp
    moreover have "path_splits s leaf" using Cons.prems(2) by simp
    ultimately show ?thesis by (simp add: path_splits_def splits_input_def)
  qed
  with old new show ?case by auto
qed

lemma bf_loop_splits:
  assumes mt: "\<And>c t m. m \<in> set (fst (mt c t)) \<Longrightarrow> splits_input t m"
  shows "bf_loop mt leaves children = Inr final \<Longrightarrow>
         \<forall>leaf \<in> set leaves. path_splits s leaf \<Longrightarrow>
         \<forall>leaf \<in> set final. path_splits s leaf"
proof (induction children arbitrary: leaves)
  case Nil
  then show ?case by simp
next
  case (Cons child children)
  show ?case
  proof (cases "leaves = []")
    case True
    with Cons.prems show ?thesis by simp
  next
    case False
    with Cons.prems(1) obtain new_leaves where
      ext: "extend_leaves mt child leaves = Inr new_leaves" and
      loop: "bf_loop mt new_leaves children = Inr final"
      by (auto split: sum.splits)
    have "\<forall>leaf \<in> set new_leaves. path_splits s leaf"
      using extend_leaves_splits[OF _ ext Cons.prems(2)] mt by blast
    with Cons.IH[OF loop] show ?thesis by blast
  qed
qed

lemma build_splits: "path_splits s path \<Longrightarrow> splits_input s (build path)"
  by (simp add: path_splits_def splits_input_def build_def)

lemma breadth_first_splits:
  assumes mt: "\<And>c t m. m \<in> set (fst (mt c t)) \<Longrightarrow> splits_input t m"
    and m: "m \<in> set (fst (breadth_first mt sequence s))"
  shows "splits_input s m"
proof -
  from m obtain first children ms final where
    seq: "sequence = first # children" and
    ms: "mt first s = (ms, Done)" and
    loop: "bf_loop mt (map (\<lambda>m. [m]) ms) children = Inr final" and
    item: "m \<in> set (fst (for_each yield_subtree final))"
    unfolding breadth_first_def
    by (auto split: list.splits prod.splits ending.splits sum.splits)
  have "\<forall>leaf \<in> set (map (\<lambda>m. [m]) ms). path_splits s leaf"
    using mt[of _ first s] ms by (auto simp: path_splits_def splits_input_def)
  then have "\<forall>leaf \<in> set final. path_splits s leaf"
    using bf_loop_splits[OF _ loop] mt by blast
  moreover from for_each_item[OF item] obtain leaf where
    "leaf \<in> set final" "m \<in> set (fst (yield_subtree leaf))" by blast
  ultimately show ?thesis
    by (auto simp: yield_subtree_def build_splits split: if_splits)
qed

lemma sequence_match_splits:
  assumes mt: "\<And>c t m. m \<in> set (fst (mt c t)) \<Longrightarrow> splits_input t m"
    and m: "m \<in> set (fst (sequence_match mt greedy sequence s))"
  shows "splits_input s m"
proof -
  from then_gen_item[OF m[unfolded sequence_match_def]]
  show ?thesis
    using breadth_first_splits[where mt=mt and m=m and sequence=sequence and s=s] mt
    by (auto simp: splits_input_def depth_first_def split: if_splits)
qed

lemma traverse_splits:
  assumes sub: "\<And>t m. m \<in> set (fst (sub t)) \<Longrightarrow> splits_input t m"
  shows "h \<in> set (fst (traverse k sub t history)) \<Longrightarrow> history_splits s t history \<Longrightarrow>
         \<exists>t'. history_splits s t' h"
proof (induction k arbitrary: t history)
  case 0
  then show ?case by simp
next
  case (Suc k)
  from then_gen_item[OF Suc.prems(1)[unfolded traverse.simps]]
  show ?case
  proof
    assume "h \<in> set (fst ([history], Done))"
    with Suc.prems(2) show ?thesis by auto
  next
    assume "h \<in> set (fst (for_gen (sub t) (\<lambda>m. traverse k sub (rest m) (history @ [m]))))"
    from for_gen_item[OF this] obtain m where
      m: "m \<in> set (fst (sub t))" and h: "h \<in> set (fst (traverse k sub (rest m) (history @ [m])))"
      by blast
    have "history_splits s (rest m) (history @ [m])"
      using sub[OF m] Suc.prems(2) by (auto simp: history_splits_def splits_input_def)
    from Suc.IH[OF h this] show ?thesis .
  qed
qed

lemma zero_or_more_match_splits:
  assumes sub: "\<And>t m. m \<in> set (fst (sub t)) \<Longrightarrow> splits_input t m"
    and m: "m \<in> set (fst (zero_or_more_match k sub s))"
  shows "splits_input s m"
proof -
  from for_gen_item[OF m[unfolded zero_or_more_match_def]] obtain h where
    h: "h \<in> set (fst (traverse k sub s []))" and mh: "m = build_history s h" by auto
  have "history_splits s s []" by (simp add: history_splits_def)
  from traverse_splits[OF sub h this] obtain t' where "history_splits s t' h" by blast
  then show ?thesis unfolding mh
    by (auto simp: history_splits_def splits_input_def build_history_def)
qed

lemma one_or_more_match_item:
  "m \<in> set (fst (one_or_more_match g)) \<Longrightarrow> m \<in> set (fst g) \<and> converted m \<noteq> VList []"
  by (auto simp: one_or_more_match_def dest!: for_gen_item split: if_splits)

lemma match_splits: "m \<in> set (fst (match n sp s)) \<Longrightarrow> splits_input s m"
proof (induction n arbitrary: sp s m)
  case 0
  then show ?case by (cases sp) (auto simp: leaf_splits)
next
  case (Suc n)
  have IH: "\<And>c t m. m \<in> set (fst (match n c t)) \<Longrightarrow> splits_input t m"
    using Suc.IH by blast
  show ?case
  proof (cases sp)
    case (Transform sub f)
    with Suc.prems obtain m0 where "m0 \<in> set (fst (match n sub s))"
        "m \<in> set (fst (case f (converted m0) of Inr v \<Rightarrow> ([replace_converted m0 v], Done)
              | Inl e \<Rightarrow> ([], Raised e)))"
      by (auto dest!: for_gen_item)
    then show ?thesis using IH[of m0 sub s]
      by (auto simp: splits_input_def replace_converted_def split: sum.splits)
  next
    case (NonCapturing sub)
    with Suc.prems obtain m0 where "m0 \<in> set (fst (match n sub s))"
        "m = replace_converted m0 NON_CAPTURING"
      by (auto dest!: for_gen_item)
    then show ?thesis using IH[of m0 sub s]
      by (auto simp: splits_input_def replace_converted_def)
  next
    case (Either options)
    with Suc.prems show ?thesis by (auto dest!: for_each_item intro: IH)
  next
    case (Sequence sequence)
    with Suc.prems show ?thesis using sequence_match_splits[where mt="match n" and m=m and sequence=sequence and s=s] IH
      by auto
  next
    case (ZeroOrMore sub)
    with Suc.prems show ?thesis using zero_or_more_match_splits[where sub="match n sub" and m=m and k=n and s=s] IH
      by auto
  next
    case (OneOrMore sub)
    with Suc.prems show ?thesis
      using zero_or_more_match_splits[where sub="match n sub" and m=m and k=n and s=s] IH
      by (auto dest!: one_or_more_match_item)
  next
    case (NamedOr options_dict)
    with Suc.prems obtain name c m0 where "m0 \<in> set (fst (match n c s))"
        "m = replace_converted m0 (VDict [(name, converted m0)])"
      by (auto dest!: for_each_item for_gen_item)
    then show ?thesis using IH[of m0 c s]
      by (auto simp: splits_input_def replace_converted_def)
  next
    case (NamedAnd sequence_dict)
    with Suc.prems obtain m0 where
      m0: "m0 \<in> set (fst (sequence_match (match n) False (map snd sequence_dict) s))" and
      "m \<in> set (fst (case converted m0 of
               VList vs \<Rightarrow> ([replace_converted m0 (VDict (zip (map fst sequence_dict) vs))], Done)
             | _ \<Rightarrow> ([], Raised TypeError)))"
      by (auto dest!: for_gen_item)
    then show ?thesis using sequence_match_splits[where mt="match n" and m=m0 and sequence="map snd sequence_dict" and s=s] IH
      by (auto simp: splits_input_def replace_converted_def split: val.splits)
  qed (use Suc.prems in \<open>auto simp: leaf_splits\<close>)
qed

lemma snd_for_gen:
  "snd (for_gen g body) =
     (if snd (for_each body (fst g)) = Done then snd g else snd (for_each body (fst g)))"
  unfolding for_gen_def by (cases "for_each body (fst g)"; cases "snd (for_each body (fst g))") auto

lemma fst_one_or_more_match:
  "fst (one_or_more_match g) = filter (\<lambda>m. converted m \<noteq> VList []) (fst g)"
proof -
  have "fst (for_each (\<lambda>m. if converted m \<noteq> VList [] then ([m], Done) else ([], Done)) xs)
        = filter (\<lambda>m. converted m \<noteq> VList []) xs
      \<and> snd (for_each (\<lambda>m. if converted m \<noteq> VList [] then ([m], Done) else ([], Done)) xs)
        = Done" for xs :: "pmatch list"
    by (induction xs) (auto split: prod.splits)
  then show ?thesis by (simp add: one_or_more_match_def fst_for_gen)
qed

lemma snd_one_or_more_match: "snd (one_or_more_match g) = snd g"
proof -
  have "snd (for_each (\<lambda>m. if converted m \<noteq> VList [] then ([m], Done) else ([], Done)) xs)
        = Done" for xs :: "pmatch list"
    by (induction xs) (auto split: prod.splits)
  then show ?thesis by (simp add: one_or_more_match_def snd_for_gen)
qed

text \<open>At every bound, \<open>OneOrMore\<close> runs on the generator of \<open>ZeroOrMore\<close> at the same bound.\<close>

lemma match_OneOrMore:
  "match n (OneOrMore sub) s = one_or_more_match (match n (ZeroOrMore sub) s)"
proof (cases n)
  case 0
  then show ?thesis by (simp add: one_or_more_match_def for_gen_def)
next
  case (Suc k)
  then show ?thesis by simp
qed

section \<open>The partition, the empty Sequence and the helper zero_or_more\<close>

text \<open>
  C7. For every spec and every input string, every match that \<open>spec.match(s)\<close> yields
  satisfies \<open>captured + rest == s\<close>, whatever the bound on the depth of the calls.
\<close>

theorem captured_rest_partition:
  "m \<in> set (fst (match n sp s)) \<Longrightarrow> captured m @ rest m = s"
  using match_splits[of m n sp s] by (simp add: splits_input_def)

theorem captured_rest_partition_witness:
  "Match (VList [VInt 42, VInt 15]) ''42 15'' '' hello''
     \<in> set (fst (match 1 (Sequence [Integer, Integer]) ''42 15 hello''))
   \<and> captured (Match (VList [VInt 42, VInt 15]) ''42 15'' '' hello'')
       @ rest (Match (VList [VInt 42, VInt 15]) ''42 15'' '' hello'') = ''42 15 hello''"
proof -
  have h: "Match (VList [VInt 42, VInt 15]) ''42 15'' '' hello''
     \<in> set (fst (match 1 (Sequence [Integer, Integer]) ''42 15 hello''))"
    by code_simp
  from captured_rest_partition[OF h] h show ?thesis by simp
qed

text \<open>
  C2. \<open>Sequence([]).match(s)\<close> yields \<open>Match([], "", s)\<close>; the claim has the generator end
  normally after it. The code goes on to \<open>breadth_first\<close>, where \<open>self.sequence[0]\<close> raises
  \<open>IndexError\<close>: the generator yields the match and then raises.
\<close>

theorem empty_sequence_raises:
  "match (Suc n) (Sequence []) s = ([Match (VList []) [] s], Raised IndexError)"
  by (simp add: sequence_match_def then_gen_def breadth_first_def)

text \<open>
  C10. \<open>zero_or_more(spec)\<close> builds a \<open>OneOrMore\<close>: it yields what \<open>one_or_more(spec)\<close>
  yields, never the result of zero repetitions, and no empty list as converted value.
\<close>

theorem zero_or_more_helper_is_one_or_more:
  "match n (zero_or_more sp) s = match n (one_or_more sp) s
   \<and> Match (VList []) [] s \<notin> set (fst (match n (zero_or_more sp) s))
   \<and> (\<forall>m \<in> set (fst (match n (zero_or_more sp) s)). converted m \<noteq> VList [])"
  by (simp add: zero_or_more_def one_or_more_def match_OneOrMore fst_one_or_more_match)

theorem zero_or_more_helper_is_one_or_more_witness:
  "match 4 (zero_or_more (Exact ''a'')) ''aa'' = match 4 (one_or_more (Exact ''a'')) ''aa''
   \<and> Match (VList []) [] ''aa'' \<notin> set (fst (match 4 (zero_or_more (Exact ''a'')) ''aa''))
   \<and> list_all (\<lambda>m. converted m \<noteq> VList []) (fst (match 4 (zero_or_more (Exact ''a'')) ''aa''))
   \<and> match 4 (zero_or_more (Exact ''a'')) ''aa''
       = ([Match (VList [VStr ''a'']) ''a'' ''a'', Match (VList [VStr ''a'', VStr ''a'']) ''aa'' []],
          Done)"
proof -
  have "match 4 (zero_or_more (Exact ''a'')) ''aa''
       = ([Match (VList [VStr ''a'']) ''a'' ''a'', Match (VList [VStr ''a'', VStr ''a'']) ''aa'' []],
          Done)"
    by code_simp
  moreover note zero_or_more_helper_is_one_or_more[of 4 "Exact ''a''" "''aa''"]
  ultimately show ?thesis unfolding list_all_iff by blast
qed

section \<open>StringWithout\<close>

lemma first_bad_index_less: "s \<noteq> [] \<Longrightarrow> first_bad_index exclude s < length s"
  by (induction exclude s rule: first_bad_index.induct) auto

lemma first_bad_index_Cons:
  "set s \<inter> exclude \<noteq> {} \<Longrightarrow>
   first_bad_index exclude (c # s) = (if c \<in> exclude then 0 else Suc (first_bad_index exclude s))"
  by (cases s) auto

lemma map_upt_Suc: "map f [Suc 0 ..< Suc (Suc k)] = f (Suc 0) # map (\<lambda>i. f (Suc i)) [Suc 0 ..< Suc k]"
  by (simp add: upt_conv_Cons map_Suc_upt[symmetric] del: upt_Suc)

lemma clean_prefixes_upto:
  "set s \<inter> exclude \<noteq> {} \<Longrightarrow>
   filter (clean_prefix exclude) (prefixes s)
     = map (\<lambda>i. take i s) [1 ..< first_bad_index exclude s + 1]"
proof (induction s)
  case Nil
  then show ?case by simp
next
  case (Cons c s)
  show ?case
  proof (cases "c \<in> exclude")
    case True
    then have "filter (clean_prefix exclude) (map ((#) c) (prefixes s)) = []"
      by (auto simp: filter_empty_conv clean_prefix_def)
    with True show ?thesis 
      by (cases s) (auto simp: clean_prefix_def)
  next
    case False
    with Cons.prems have bad: "set s \<inter> exclude \<noteq> {}" by auto
    then obtain d s' where s: "s = d # s'" by (cases s) auto
    have pre: "prefixes s = [] # map ((#) d) (prefixes s')" by (simp add: s)
    have a: "filter (clean_prefix exclude) (map ((#) c) (prefixes s))
          = map ((#) c) (filter (\<lambda>p. set p \<inter> exclude = {}) (prefixes s))"
      using False by (simp add: filter_map o_def clean_prefix_def)
    have b: "filter (\<lambda>p. set p \<inter> exclude = {}) (prefixes s)
          = [] # filter (clean_prefix exclude) (prefixes s)"
      unfolding pre by (simp add: filter_map o_def clean_prefix_def)
    have "filter (clean_prefix exclude) (prefixes (c # s))
          = filter (clean_prefix exclude) (map ((#) c) (prefixes s))"
      by (simp add: clean_prefix_def)
    then have "filter (clean_prefix exclude) (prefixes (c # s))
          = [c] # map (\<lambda>i. c # take i s) [1 ..< first_bad_index exclude s + 1]"
      unfolding a b Cons.IH[OF bad] by (simp add: o_def del: upt_Suc)
    moreover have "first_bad_index exclude (c # s) = Suc (first_bad_index exclude s)"
      using first_bad_index_Cons[OF bad] False by simp
    ultimately show ?thesis
      by (simp add: map_upt_Suc del: upt_Suc)
  qed
qed

text \<open>
  C1, as the code has it. \<open>StringWithout(E).match(s)\<close> always returns. It yields nothing
  when \<open>s\<close> is empty or starts with an excluded character. When \<open>s\<close> has an excluded
  character, it yields one match per non-empty prefix without excluded characters, from the
  shortest prefix to the longest.
\<close>

theorem string_without_shortest_first:
  "snd (match n (StringWithout exclude) s) = Done
   \<and> (s = [] \<or> hd s \<in> exclude \<longrightarrow> fst (match n (StringWithout exclude) s) = [])
   \<and> (set s \<inter> exclude \<noteq> {} \<longrightarrow>
        fst (match n (StringWithout exclude) s)
          = map (\<lambda>p. Match (VStr p) p (drop (length p) s))
              (filter (clean_prefix exclude) (prefixes s)))"
proof (intro conjI impI)
  show "snd (match n (StringWithout exclude) s) = Done"
    by (simp add: string_without_match_def)
  show "fst (match n (StringWithout exclude) s) = []" if "s = [] \<or> hd s \<in> exclude"
    using that by (cases s; cases "tl s") (auto simp: string_without_match_def)
  show "fst (match n (StringWithout exclude) s)
          = map (\<lambda>p. Match (VStr p) p (drop (length p) s))
              (filter (clean_prefix exclude) (prefixes s))" if bad: "set s \<inter> exclude \<noteq> {}"
  proof -
    from bad have ne: "s \<noteq> []" by auto
    have "split_at s i = (\<lambda>p. Match (VStr p) p (drop (length p) s)) (take i s)"
      if "i \<in> set [1 ..< first_bad_index exclude s + 1]" for i
      using that first_bad_index_less[OF ne, of exclude] by (simp add: split_at_def min_def)
    then have "map (split_at s) [1 ..< first_bad_index exclude s + 1]
        = map (\<lambda>p. Match (VStr p) p (drop (length p) s))
            (map (\<lambda>i. take i s) [1 ..< first_bad_index exclude s + 1])"
      unfolding map_map o_def by (intro map_cong refl) 
    then show ?thesis
      using ne by (simp add: string_without_match_def clean_prefixes_upto[OF bad] del: upt_Suc)
  qed
qed

theorem string_without_shortest_first_witness:
  "set ''ab]c'' \<inter> {CHR '']''} \<noteq> {}
   \<and> filter (clean_prefix {CHR '']''}) (prefixes ''ab]c'') = [''a'', ''ab'']
   \<and> match 0 (StringWithout {CHR '']''}) ''ab]c''
       = ([Match (VStr ''a'') ''a'' ''b]c'', Match (VStr ''ab'') ''ab'' '']c''], Done)
   \<and> hd '']c'' \<in> {CHR '']''}
   \<and> match 0 (StringWithout {CHR '']''}) '']c'' = ([], Done)"
proof -
  have bad: "set ''ab]c'' \<inter> {CHR '']''} \<noteq> {}" by simp
  have hd: "'']c'' = [] \<or> hd '']c'' \<in> {CHR '']''}" by simp
  have pre: "filter (clean_prefix {CHR '']''}) (prefixes ''ab]c'') = [''a'', ''ab'']"
    by (simp add: clean_prefix_def)
  note t1 = string_without_shortest_first[of 0 "{CHR '']''}" "''ab]c''"]
  note t2 = string_without_shortest_first[of 0 "{CHR '']''}" "'']c''"]
  from t1 bad pre have "match 0 (StringWithout {CHR '']''}) ''ab]c''
       = ([Match (VStr ''a'') ''a'' ''b]c'', Match (VStr ''ab'') ''ab'' '']c''], Done)"
    by (simp add: prod_eq_iff)
  moreover from t2 hd have "match 0 (StringWithout {CHR '']''}) '']c'' = ([], Done)"
    by (simp add: prod_eq_iff)
  ultimately show ?thesis using pre by simp
qed

text \<open>
  The claim has the longest prefix first: on \<open>"ab]c"\<close> the code yields \<open>"a"\<close>, then \<open>"ab"\<close>.
\<close>

theorem string_without_longest_first_counterexample:
  "fst (match 0 (StringWithout {CHR '']''}) ''ab]c'')
     = [Match (VStr ''a'') ''a'' ''b]c'', Match (VStr ''ab'') ''ab'' '']c'']
   \<and> fst (match 0 (StringWithout {CHR '']''}) ''ab]c'')
     \<noteq> [Match (VStr ''ab'') ''ab'' '']c'', Match (VStr ''a'') ''a'' ''b]c'']"
  by (simp add: string_without_match_def split_at_def upt_conv_Cons)

section \<open>A larger bound only adds to what is observed\<close>

lemma approx_refl: "approx g g"
  by (simp add: approx_def)

lemma approx_trans: "approx a b \<Longrightarrow> approx b c \<Longrightarrow> approx a c"
  by (auto simp: approx_def split: if_splits)

lemma approx_Cutoff: "approx ([], Cutoff) g"
  by (simp add: approx_def)

lemma approx_final: "approx g g' \<Longrightarrow> snd g \<noteq> Cutoff \<Longrightarrow> g' = g"
  by (simp add: approx_def)

lemma approx_then_gen:
  "approx g g' \<Longrightarrow> approx h h' \<Longrightarrow> approx (then_gen g h) (then_gen g' h')"
  by (cases g; cases g'; cases h; cases h'; cases "snd g"; cases "snd g'")
     (auto simp: approx_def then_gen_def split: if_splits elim: prefixE)

lemma for_each_append:
  "for_each body (xs @ ys) = then_gen (for_each body xs) (for_each body ys)"
proof (induction xs)
  case Nil
  then show ?case by (simp add: then_gen_def)
next
  case (Cons x xs)
  then show ?case
    by (cases "body x"; cases "snd (body x)"; cases "for_each body xs"; cases "snd (for_each body xs)")
       (auto simp: then_gen_def)
qed

lemma approx_for_each:
  "(\<And>x. x \<in> set xs \<Longrightarrow> approx (body x) (body' x)) \<Longrightarrow>
   approx (for_each body xs) (for_each body' xs)"
proof (induction xs)
  case Nil
  then show ?case by (simp add: approx_refl)
next
  case (Cons x xs)
  have "for_each body (x # xs) = then_gen (body x) (for_each body xs)"
       "for_each body' (x # xs) = then_gen (body' x) (for_each body' xs)"
    by (auto simp: then_gen_def split: prod.splits ending.splits)
  then show ?case using Cons by (simp add: approx_then_gen)
qed

lemma for_gen_then_gen: "for_gen g body = then_gen (for_each body (fst g)) ([], snd g)"
  by (simp add: for_gen_def then_gen_def split: prod.splits ending.splits)

lemma approx_then_gen_prefix: "approx g g' \<Longrightarrow> approx (then_gen g ([], Cutoff)) (then_gen g' h)"
  by (cases g; cases g'; cases h; cases "snd g"; cases "snd g'")
     (auto simp: approx_def then_gen_def split: if_splits elim: prefixE)

lemma then_gen_assoc: "then_gen (then_gen a b) c = then_gen a (then_gen b c)"
  by (cases a; cases b; cases c; cases "snd a"; cases "snd b") (auto simp: then_gen_def)

lemma approx_for_gen:
  assumes g: "approx g g'" and body: "\<And>x. approx (body x) (body' x)"
  shows "approx (for_gen g body) (for_gen g' body')"
proof (cases "snd g = Cutoff")
  case False
  with g have "g' = g" by (simp add: approx_def)
  then show ?thesis
    unfolding for_gen_then_gen
    by (simp add: approx_then_gen approx_for_each body approx_refl)
next
  case True
  with g obtain zs where zs: "fst g' = fst g @ zs" by (auto simp: approx_def elim: prefixE)
  have "approx (then_gen (for_each body (fst g)) ([], Cutoff))
               (then_gen (for_each body' (fst g)) (then_gen (for_each body' zs) ([], snd g')))"
    by (rule approx_then_gen_prefix) (simp add: approx_for_each body)
  then show ?thesis
    unfolding for_gen_then_gen zs for_each_append then_gen_assoc True .
qed

lemma approx_extend_leaves:
  assumes mt: "\<And>t. approx (mt child t) (mt' child t)"
  shows "approx_leaves (extend_leaves mt child leaves) (extend_leaves mt' child leaves)"
proof (induction leaves)
  case Nil
  then show ?case by (simp add: approx_leaves_def)
next
  case (Cons leaf leaves)
  show ?case
  proof (cases "leaf = []")
    case True
    then show ?thesis by (simp add: approx_leaves_def)
  next
    case False
    show ?thesis
    proof (cases "snd (mt child (rest (last leaf))) = Cutoff")
      case True
      then show ?thesis using False
        by (cases "mt child (rest (last leaf))") (simp add: approx_leaves_def)
    next
      case nc: False
      then have "mt' child (rest (last leaf)) = mt child (rest (last leaf))"
        using mt[of "rest (last leaf)"] by (simp add: approx_def)
      then show ?thesis using False Cons.IH
        by (auto simp: approx_leaves_def split: prod.splits ending.splits sum.splits)
    qed
  qed
qed

lemma approx_bf_loop:
  assumes mt: "\<And>c t. approx (mt c t) (mt' c t)"
  shows "approx_leaves (bf_loop mt leaves children) (bf_loop mt' leaves children)"
proof (induction children arbitrary: leaves)
  case Nil
  then show ?case by (simp add: approx_leaves_def)
next
  case (Cons child children)
  have ext: "approx_leaves (extend_leaves mt child leaves) (extend_leaves mt' child leaves)"
    by (rule approx_extend_leaves) (rule mt)
  show ?case
  proof (cases "extend_leaves mt child leaves")
    case (Inl e)
    with ext show ?thesis by (auto simp: approx_leaves_def)
  next
    case (Inr new_leaves)
    with ext have "extend_leaves mt' child leaves = Inr new_leaves"
      by (simp add: approx_leaves_def)
    with Inr Cons.IH[of new_leaves] show ?thesis
      by (simp add: approx_leaves_def)
  qed
qed

lemma approx_breadth_first:
  assumes mt: "\<And>c t. approx (mt c t) (mt' c t)"
  shows "approx (breadth_first mt sequence s) (breadth_first mt' sequence s)"
proof (cases sequence)
  case Nil
  then show ?thesis by (simp add: breadth_first_def approx_refl)
next
  case (Cons first children)
  show ?thesis
  proof (cases "snd (mt first s) = Cutoff")
    case True
    then show ?thesis using Cons
      by (cases "mt first s") (simp add: breadth_first_def approx_Cutoff)
  next
    case False
    then have eq: "mt' first s = mt first s" using mt[of first s] by (simp add: approx_def)
    have "approx_leaves (bf_loop mt (map (\<lambda>m. [m]) (fst (mt first s))) children)
                        (bf_loop mt' (map (\<lambda>m. [m]) (fst (mt first s))) children)"
      by (rule approx_bf_loop) (rule mt)
    then show ?thesis using Cons eq
      by (auto simp: breadth_first_def approx_leaves_def approx_Cutoff approx_refl
               split: prod.splits ending.splits sum.splits)
  qed
qed

lemma approx_sequence_match:
  assumes mt: "\<And>c t. approx (mt c t) (mt' c t)"
  shows "approx (sequence_match mt greedy sequence s) (sequence_match mt' greedy sequence s)"
  unfolding sequence_match_def
  by (intro approx_then_gen) (auto simp: approx_refl approx_breadth_first mt)

lemma approx_traverse:
  assumes sub: "\<And>t. approx (sub t) (sub' t)"
  shows "approx (traverse k sub s history) (traverse (Suc k) sub' s history)"
proof (induction k arbitrary: s history)
  case 0
  then show ?case by (simp add: approx_Cutoff)
next
  case (Suc k)
  have "approx (then_gen ([history], Done)
                  (for_gen (sub s) (\<lambda>m. traverse k sub (rest m) (history @ [m]))))
               (then_gen ([history], Done)
                  (for_gen (sub' s) (\<lambda>m. traverse (Suc k) sub' (rest m) (history @ [m]))))"
    by (intro approx_then_gen approx_for_gen approx_refl sub Suc.IH)
  then show ?case
    by (simp only: traverse.simps(2)[of k sub s history]
                   traverse.simps(2)[of "Suc k" sub' s history])
qed

lemma approx_zero_or_more_match:
  assumes sub: "\<And>t. approx (sub t) (sub' t)"
  shows "approx (zero_or_more_match k sub s) (zero_or_more_match (Suc k) sub' s)"
  unfolding zero_or_more_match_def
  by (intro approx_for_gen approx_traverse approx_refl sub)

lemma approx_one_or_more_match:
  "approx g g' \<Longrightarrow> approx (one_or_more_match g) (one_or_more_match g')"
  unfolding one_or_more_match_def by (intro approx_for_gen approx_refl)

lemma approx_match_Suc: "approx (match n sp s) (match (Suc n) sp s)"
proof (induction n arbitrary: sp s)
  case 0
  show ?case by (cases sp) (simp_all add: approx_refl approx_Cutoff)
next
  case (Suc n)
  show ?case
  proof (cases sp)
    case (Transform sub f)
    then show ?thesis by (simp add: approx_for_gen Suc approx_refl)
  next
    case (NonCapturing sub)
    then show ?thesis by (simp add: approx_for_gen Suc approx_refl)
  next
    case (Either options)
    then show ?thesis by (simp add: approx_for_each Suc)
  next
    case (Sequence sequence)
    then show ?thesis by (simp add: approx_sequence_match Suc)
  next
    case (ZeroOrMore sub)
    then show ?thesis by (simp add: approx_zero_or_more_match Suc)
  next
    case (OneOrMore sub)
    then show ?thesis by (simp add: approx_one_or_more_match approx_zero_or_more_match Suc)
  next
    case (NamedOr options_dict)
    then show ?thesis
      by (auto intro!: approx_for_each approx_for_gen simp: Suc approx_refl)
  next
    case (NamedAnd sequence_dict)
    then show ?thesis by (simp add: approx_for_gen approx_sequence_match Suc approx_refl)
  qed (simp_all add: approx_refl)
qed

lemma approx_match: "n \<le> k \<Longrightarrow> approx (match n sp s) (match k sp s)"
proof (induction k)
  case 0
  then show ?case by (simp add: approx_refl)
next
  case (Suc k)
  show ?case
  proof (cases "n = Suc k")
    case True
    then show ?thesis by (simp add: approx_refl)
  next
    case False
    with Suc have "approx (match n sp s) (match k sp s)" by simp
    then show ?thesis using approx_match_Suc approx_trans by blast
  qed
qed

lemma match_stable: "snd (match n sp s) \<noteq> Cutoff \<Longrightarrow> n \<le> k \<Longrightarrow> match k sp s = match n sp s"
  using approx_match[of n k sp s] by (simp add: approx_def)

section \<open>The query of the convenience layer\<close>

lemma convert_list_snoc_End:
  "convert_list (xs @ [End]) = Inr ys \<Longrightarrow> \<exists>cs. ys = cs @ [End]"
proof (induction xs arbitrary: ys)
  case Nil
  then show ?case by auto
next
  case (Cons x xs)
  then obtain y ys' where "convert_list (xs @ [End]) = Inr ys'" "ys = y # ys'"
    by (auto split: sum.splits)
  with Cons.IH[of ys'] show ?case by auto
qed

lemma convert_end_terminated:
  "convert (end_terminated p) = Inr sp \<Longrightarrow> \<exists>cs. sp = Sequence (cs @ [End])"
proof (cases "\<exists>xs. p = PyList xs")
  case True
  then obtain xs where p: "p = PyList xs" by blast
  assume "convert (end_terminated p) = Inr sp"
  with p obtain ys where "convert_list (xs @ [End]) = Inr ys" "sp = Sequence ys"
    by (auto simp: end_terminated_def split: sum.splits)
  with convert_list_snoc_End show ?thesis by blast
next
  case False
  then have e: "end_terminated p = PyList [p, End]"
    by (cases p) (auto simp: end_terminated_def)
  assume "convert (end_terminated p) = Inr sp"
  then obtain y where "sp = Sequence [y, End]"
    unfolding e by (auto split: sum.splits)
  then have "sp = Sequence ([y] @ [End])" by simp
  then show ?thesis by blast
qed

lemma first_item_stable:
  assumes "match n sp s = (m # ms, e)" and "n \<le> k"
  shows "\<exists>ms' e'. match k sp s = (m # ms', e')"
proof -
  from approx_match[OF assms(2), of sp s] assms(1)
  have "prefix (m # ms) (fst (match k sp s)) \<or> match k sp s = (m # ms, e)"
    by (auto simp: approx_def split: if_splits)
  then show ?thesis
    by (cases "match k sp s") (auto elim!: prefixE)
qed

text \<open>
  C3, as the code has it. \<open>match(p, s)\<close> of \<open>arg_parse\<close> converts the pattern ended with
  \<open>End()\<close>, which gives a \<open>Sequence\<close> whose last child is \<open>End\<close>, and returns the first
  \<open>Match\<close> object that it yields on \<open>s\<close>, with its three fields; it returns \<open>None\<close> when the
  generator ends without a match. What a bound \<open>n\<close> shows, every larger bound returns.
\<close>

theorem arg_parse_match_returns_first_match:
  assumes "convert (end_terminated p) = Inr sp" and "n \<le> k"
  shows "(\<exists>cs. sp = Sequence (cs @ [End]))
       \<and> (\<forall>m ms e. match n sp s = (m # ms, e) \<longrightarrow> arg_parse_match k p s = Some (Inr (VMatch m)))
       \<and> (match n sp s = ([], Done) \<longrightarrow> arg_parse_match k p s = Some (Inr VNone))"
proof (intro conjI allI impI)
  show "\<exists>cs. sp = Sequence (cs @ [End])"
    using assms(1) by (rule convert_end_terminated)
next
  fix m ms e
  assume "match n sp s = (m # ms, e)"
  from first_item_stable[OF this assms(2)] obtain ms' e' where "match k sp s = (m # ms', e')"
    by blast
  then show "arg_parse_match k p s = Some (Inr (VMatch m))"
    by (simp add: arg_parse_match_def assms(1) first_match_def)
next
  assume "match n sp s = ([], Done)"
  then have "match k sp s = ([], Done)"
    using match_stable[of n sp s k] assms(2) by simp
  then show "arg_parse_match k p s = Some (Inr VNone)"
    by (simp add: arg_parse_match_def assms(1) first_match_def)
qed

theorem arg_parse_match_returns_first_match_witness:
  "convert (end_terminated PyIntType) = Inr (Sequence ([Integer] @ [End]))
   \<and> (1::nat) \<le> 2
   \<and> match 1 (Sequence ([Integer] @ [End])) ''42'' = ([Match (VList [VInt 42]) ''42'' []], Done)
   \<and> arg_parse_match 2 PyIntType ''42'' = Some (Inr (VMatch (Match (VList [VInt 42]) ''42'' [])))
   \<and> match 1 (Sequence ([Integer] @ [End])) ''x'' = ([], Done)
   \<and> arg_parse_match 2 PyIntType ''x'' = Some (Inr VNone)"
proof -
  have c: "convert (end_terminated PyIntType) = Inr (Sequence ([Integer] @ [End]))"
    by (simp add: end_terminated_def)
  have le: "(1::nat) \<le> 2" by simp
  have m1: "match 1 (Sequence ([Integer] @ [End])) ''42'' = ([Match (VList [VInt 42]) ''42'' []], Done)"
    by code_simp
  have m2: "match 1 (Sequence ([Integer] @ [End])) ''x'' = ([], Done)"
    by code_simp
  from arg_parse_match_returns_first_match[OF c le, of "''42''"] m1
  have r1: "arg_parse_match 2 PyIntType ''42'' = Some (Inr (VMatch (Match (VList [VInt 42]) ''42'' [])))"
    by blast
  from arg_parse_match_returns_first_match[OF c le, of "''x''"] m2
  have r2: "arg_parse_match 2 PyIntType ''x'' = Some (Inr VNone)"
    by blast
  from c le m1 m2 r1 r2 show ?thesis by blast
qed

text \<open>
  The claim has the converted value returned: on the pattern \<open>int\<close> and \<open>"42"\<close> the code
  returns \<open>Match([42], "42", "")\<close>, which is not the list \<open>[42]\<close>.
\<close>

theorem arg_parse_match_converted_counterexample:
  "arg_parse_match 1 PyIntType ''42'' = Some (Inr (VMatch (Match (VList [VInt 42]) ''42'' [])))
   \<and> VMatch (Match (VList [VInt 42]) ''42'' []) \<noteq> converted (Match (VList [VInt 42]) ''42'' [])"
proof -
  have "match 1 (Sequence [Integer, End]) ''42'' = ([Match (VList [VInt 42]) ''42'' []], Done)"
    by code_simp
  then show ?thesis
    by (simp add: arg_parse_match_def end_terminated_def first_match_def)
qed

lemma convert_ban_pattern:
  "convert (end_terminated ban_pattern) = Inr (Sequence
        [NonCapturing (Exact ''/''), NonCapturing (Exact ''ban''),
         Sequence
          [NonCapturing (Exact ''[''), StringWithout {CHR ''|''},
           NonCapturing (Exact ''|''), StringWithout {CHR '']''},
           NonCapturing (Exact '']'')],
         Integer, End])"
  by (simp add: ban_pattern_def end_terminated_def without_def)

lemma match_ban_pattern:
  "match 3 (Sequence
        [NonCapturing (Exact ''/''), NonCapturing (Exact ''ban''),
         Sequence
          [NonCapturing (Exact ''[''), StringWithout {CHR ''|''},
           NonCapturing (Exact ''|''), StringWithout {CHR '']''},
           NonCapturing (Exact '']'')],
         Integer, End]) ''/ban [hello|world] 42''
   = ([Match (VList [VList [VStr ''hello'', VStr ''world''], VInt 42])
           ''/ban [hello|world] 42'' []], Done)"
  by code_simp

text \<open>
  C4, as the code has it. The pattern of \<open>example.py\<close> on \<open>"/ban [hello|world] 42"\<close>: the
  inner list is a \<open>Sequence\<close> of its own, whose converted value is a list, so the converted
  value of the first match is the nested list \<open>[["hello", "world"], 42]\<close>.
\<close>

theorem ban_example_nested:
  "arg_parse_match (n + 3) ban_pattern message
     = Some (Inr (VMatch (Match (VList [VList [VStr ''hello'', VStr ''world''], VInt 42])
                           message [])))"
proof -
  have "match (n + 3) (Sequence
        [NonCapturing (Exact ''/''), NonCapturing (Exact ''ban''),
         Sequence
          [NonCapturing (Exact ''[''), StringWithout {CHR ''|''},
           NonCapturing (Exact ''|''), StringWithout {CHR '']''},
           NonCapturing (Exact '']'')],
         Integer, End]) ''/ban [hello|world] 42''
   = ([Match (VList [VList [VStr ''hello'', VStr ''world''], VInt 42])
           ''/ban [hello|world] 42'' []], Done)"
    using match_stable[of 3 _ _ "n + 3"] match_ban_pattern by simp
  then show ?thesis
    by (simp add: arg_parse_match_def convert_ban_pattern first_match_def message_def)
qed

text \<open>The claim has the flat list \<open>["hello", "world", 42]\<close>.\<close>

theorem ban_example_flat_counterexample:
  "arg_parse_match 3 ban_pattern message
     = Some (Inr (VMatch (Match (VList [VList [VStr ''hello'', VStr ''world''], VInt 42])
                           message [])))
   \<and> VList [VList [VStr ''hello'', VStr ''world''], VInt 42]
       \<noteq> VList [VStr ''hello'', VStr ''world'', VInt 42]"
  by (simp add: arg_parse_match_def convert_ban_pattern first_match_def message_def
        match_ban_pattern)

section \<open>The results of a Sequence\<close>

lemma nested_loop_admissible:
  "path \<in> set (nested_loop mt children s) \<Longrightarrow>
   admissible mt children s path \<and> length path = length children"
  by (induction children arbitrary: s path) auto

lemma extend_leaves_Inr:
  "extend_leaves mt child leaves = Inr new_leaves \<Longrightarrow>
   new_leaves = concat (map (\<lambda>leaf. map (\<lambda>m. leaf @ [m]) (fst (mt child (rest (last leaf))))) leaves)
   \<and> (\<forall>leaf \<in> set new_leaves. leaf \<noteq> [])"
proof (induction leaves arbitrary: new_leaves)
  case Nil
  then show ?case by simp
next
  case (Cons leaf leaves)
  from Cons.prems obtain ms others where
    "mt child (rest (last leaf)) = (ms, Done)"
    "extend_leaves mt child leaves = Inr others"
    "new_leaves = map (\<lambda>m. leaf @ [m]) ms @ others"
    by (auto split: if_splits prod.splits ending.splits sum.splits)
  with Cons.IH[of others] show ?case by auto
qed

lemma concat_map_concat:
  "concat (map f (concat (map g xs))) = concat (map (\<lambda>x. concat (map f (g x))) xs)"
  by (induction xs) auto

lemma bf_loop_nested_loop:
  "bf_loop mt leaves children = Inr final \<Longrightarrow>
   final = concat (map (\<lambda>leaf. map ((@) leaf) (nested_loop mt children (rest (last leaf)))) leaves)"
proof (induction children arbitrary: leaves final)
  case Nil
  then show ?case by (simp add: concat_map_singleton)
next
  case (Cons child children)
  show ?case
  proof (cases "leaves = []")
    case True
    with Cons.prems show ?thesis by simp
  next
    case False
    with Cons.prems obtain new_leaves where
      ext: "extend_leaves mt child leaves = Inr new_leaves" and
      loop: "bf_loop mt new_leaves children = Inr final"
      by (auto split: sum.splits)
    have new: "new_leaves
        = concat (map (\<lambda>leaf. map (\<lambda>m. leaf @ [m]) (fst (mt child (rest (last leaf))))) leaves)"
      using extend_leaves_Inr[OF ext] by simp
    have "final = concat (map (\<lambda>leaf. map ((@) leaf) (nested_loop mt children (rest (last leaf))))
                    new_leaves)"
      using Cons.IH[OF loop] .
    also have "\<dots> = concat (map (\<lambda>leaf. concat (map (\<lambda>l. map ((@) l) (nested_loop mt children (rest (last l))))
                          (map (\<lambda>m. leaf @ [m]) (fst (mt child (rest (last leaf))))))) leaves)"
      unfolding new by (rule concat_map_concat)
    also have "\<dots> = concat (map (\<lambda>leaf. map ((@) leaf)
                          (nested_loop mt (child # children) (rest (last leaf)))) leaves)"
    proof -
      have "(@) (leaf @ [m]) = (\<lambda>p. leaf @ m # p)" for leaf :: "pmatch list" and m
        by auto
      then show ?thesis by (simp add: map_concat o_def)
    qed
    finally show ?thesis .
  qed
qed

lemma extend_leaves_not_Done: "extend_leaves mt child leaves \<noteq> Inl Done"
  by (induction leaves) (auto split: prod.splits ending.splits sum.splits)

lemma bf_loop_not_Done: "bf_loop mt leaves children \<noteq> Inl Done"
proof (induction children arbitrary: leaves)
  case Nil
  then show ?case by simp
next
  case (Cons child children)
  then show ?case using extend_leaves_not_Done[of mt child leaves]
    by (auto split: sum.splits)
qed

lemma for_each_yield_subtree:
  "\<forall>leaf \<in> set leaves. leaf \<noteq> [] \<Longrightarrow> for_each yield_subtree leaves = (map build leaves, Done)"
  by (induction leaves) (auto simp: yield_subtree_def)

lemma bf_loop_nonempty:
  "bf_loop mt leaves children = Inr final \<Longrightarrow> \<forall>leaf \<in> set leaves. leaf \<noteq> [] \<Longrightarrow>
   \<forall>leaf \<in> set final. leaf \<noteq> []"
proof (induction children arbitrary: leaves)
  case Nil
  then show ?case by simp
next
  case (Cons child children)
  show ?case
  proof (cases "leaves = []")
    case True
    with Cons.prems show ?thesis by simp
  next
    case False
    with Cons.prems obtain new_leaves where
      ext: "extend_leaves mt child leaves = Inr new_leaves" and
      loop: "bf_loop mt new_leaves children = Inr final"
      by (auto split: sum.splits)
    from extend_leaves_Inr[OF ext] Cons.IH[OF loop] show ?thesis by blast
  qed
qed

lemma breadth_first_nested_loop:
  assumes "sequence \<noteq> []"
  shows "breadth_first mt sequence s = (map build (nested_loop mt sequence s), Done)
       \<or> (fst (breadth_first mt sequence s) = [] \<and> snd (breadth_first mt sequence s) \<noteq> Done)"
proof -
  from assms obtain first children where seq: "sequence = first # children"
    by (cases sequence) auto
  show ?thesis
  proof (cases "snd (mt first s) = Done")
    case False
    then show ?thesis unfolding seq breadth_first_def
      by (cases "mt first s"; cases "snd (mt first s)") auto
  next
    case True
    then have ms: "mt first s = (fst (mt first s), Done)" by (cases "mt first s") auto
    show ?thesis
    proof (cases "bf_loop mt (map (\<lambda>m. [m]) (fst (mt first s))) children")
      case (Inl e)
      have "e \<noteq> Done" using bf_loop_not_Done[of mt _ children] Inl by auto
      then show ?thesis unfolding seq breadth_first_def using ms Inl
        by (auto split: prod.splits ending.splits)
    next
      case (Inr final)
      have "(@) [m] = (#) m" for m :: pmatch
        by auto
      then have "final = nested_loop mt sequence s"
        using bf_loop_nested_loop[OF Inr] by (simp add: seq o_def)
      moreover have "\<forall>leaf \<in> set final. leaf \<noteq> []"
        using bf_loop_nonempty[OF Inr] by simp
      ultimately show ?thesis unfolding seq breadth_first_def using ms Inr
        by (auto simp: for_each_yield_subtree split: prod.splits ending.splits)
    qed
  qed
qed

lemma match_Sequence_nested_loop:
  assumes "sequence \<noteq> []"
  shows "match (Suc n) (Sequence sequence) s = (map build (nested_loop (match n) sequence s), Done)
       \<or> (fst (match (Suc n) (Sequence sequence) s) = []
          \<and> snd (match (Suc n) (Sequence sequence) s) \<noteq> Done)"
  using breadth_first_nested_loop[OF assms, of "match n" s] assms
  by (auto simp: sequence_match_def then_gen_def)



text \<open>
  C6. For a non-empty child list, every result of a \<open>Sequence\<close> comes from a path with one
  match per child, each child matched on the rest of the match before: its captured string is
  the concatenation of the captured strings of the path, its converted value the list of the
  converted values of the path without the \<open>NON_CAPTURING\<close> ones, its rest the rest of the
  last match of the path.
\<close>

theorem sequence_result_of_path:
  assumes "sequence \<noteq> []" and "m \<in> set (fst (match (Suc n) (Sequence sequence) s))"
  shows "\<exists>path. admissible (match n) sequence s path
           \<and> length path = length sequence
           \<and> captured m = concat (map captured path)
           \<and> converted m = VList (filter (\<lambda>v. v \<noteq> NON_CAPTURING) (map converted path))
           \<and> rest m = rest (last path)"
proof -
  from match_Sequence_nested_loop[OF assms(1), of n s] assms(2)
  have "m \<in> set (map build (nested_loop (match n) sequence s))" by auto
  then obtain path where p: "path \<in> set (nested_loop (match n) sequence s)" and m: "m = build path"
    by auto
  from nested_loop_admissible[OF p] m show ?thesis
    by (auto simp: build_def)
qed

theorem sequence_result_of_path_witness:
  "[Integer, Integer] \<noteq> []
   \<and> Match (VList [VInt 42, VInt 15]) ''42 15'' '' hello''
       \<in> set (fst (match (Suc 0) (Sequence [Integer, Integer]) ''42 15 hello''))
   \<and> (\<exists>path. admissible (match 0) [Integer, Integer] ''42 15 hello'' path
           \<and> length path = length [Integer, Integer]
           \<and> captured (Match (VList [VInt 42, VInt 15]) ''42 15'' '' hello'')
               = concat (map captured path)
           \<and> converted (Match (VList [VInt 42, VInt 15]) ''42 15'' '' hello'')
               = VList (filter (\<lambda>v. v \<noteq> NON_CAPTURING) (map converted path))
           \<and> rest (Match (VList [VInt 42, VInt 15]) ''42 15'' '' hello'') = rest (last path))"
proof -
  have ne: "[Integer, Integer] \<noteq> []" by simp
  have h: "Match (VList [VInt 42, VInt 15]) ''42 15'' '' hello''
       \<in> set (fst (match (Suc 0) (Sequence [Integer, Integer]) ''42 15 hello''))"
    by code_simp
  from sequence_result_of_path[OF ne h] ne h show ?thesis by blast
qed

section \<open>OneOrMore against ZeroOrMore\<close>

lemma fst_then_gen_yield: "fst (then_gen ([x], Done) g) = x # fst g"
  by (simp add: then_gen_def)

lemma traverse_extends:
  "h' \<in> set (fst (traverse k sub s h)) \<Longrightarrow>
   prefix h h' \<and> (\<forall>m \<in> set (drop (length h) h'). \<exists>t. m \<in> set (fst (sub t)))"
proof (induction k arbitrary: s h)
  case 0
  then show ?case by simp
next
  case (Suc k)
  from Suc.prems have "h' = h \<or> h' \<in> set (fst (for_gen (sub s) (\<lambda>m. traverse k sub (rest m) (h @ [m]))))"
    by (simp add: fst_then_gen_yield)
  then show ?case
  proof
    assume "h' = h"
    then show ?thesis by simp
  next
    assume "h' \<in> set (fst (for_gen (sub s) (\<lambda>m. traverse k sub (rest m) (h @ [m]))))"
    from for_gen_item[OF this] obtain m where
      m: "m \<in> set (fst (sub s))" and h': "h' \<in> set (fst (traverse k sub (rest m) (h @ [m])))"
      by blast
    from Suc.IH[OF h'] have p: "prefix (h @ [m]) h'" and
      rest: "\<forall>m' \<in> set (drop (Suc (length h)) h'). \<exists>t. m' \<in> set (fst (sub t))" by auto
    from p obtain zs where zs: "h' = h @ m # zs" by (auto elim: prefixE)
    then have "drop (length h) h' = m # zs" "drop (Suc (length h)) h' = zs" by auto
    with rest m zs show ?thesis by auto
  qed
qed

lemma traverse_head:
  "fst (traverse k sub s []) = [] \<or>
   (\<exists>hs. fst (traverse k sub s []) = [] # hs \<and> (\<forall>h \<in> set hs. h \<noteq> []))"
proof (cases k)
  case 0
  then show ?thesis by simp
next
  case (Suc j)
  have "h \<noteq> []" if "h \<in> set (fst (for_gen (sub s) (\<lambda>m. traverse j sub (rest m) ([] @ [m]))))" for h
  proof -
    from for_gen_item[OF that] obtain m where "h \<in> set (fst (traverse j sub (rest m) [m]))"
      by auto
    from traverse_extends[OF this] show ?thesis by auto
  qed
  then show ?thesis unfolding Suc by (simp add: fst_then_gen_yield)
qed

lemma for_each_yield_one: "for_each (\<lambda>x. ([f x], Done)) xs = (map f xs, Done)"
  by (induction xs) auto

lemma fst_zero_or_more_match:
  "fst (zero_or_more_match k sub s) = map (build_history s) (fst (traverse k sub s []))"
  by (simp add: zero_or_more_match_def fst_for_gen for_each_yield_one)

lemma build_history_capturing:
  assumes "h \<noteq> []" and "\<forall>m \<in> set h. converted m \<noteq> NON_CAPTURING"
  shows "converted (build_history s h) \<noteq> VList []"
proof -
  from assms(2) have "filter (\<lambda>v. v \<noteq> NON_CAPTURING) (map converted h) = map converted h"
    by (simp add: filter_id_conv)
  with assms(1) show ?thesis by (simp add: build_history_def)
qed

lemma one_or_more_drops_first:
  assumes "capturing sub"
  shows "fst (match n (OneOrMore sub) s) = tl (fst (match n (ZeroOrMore sub) s))"
proof (cases n)
  case 0
  then show ?thesis by simp
next
  case (Suc k)
  let ?hs = "fst (traverse k (match k sub) s [])"
  have conv: "converted (build_history s h) \<noteq> VList []" if "h \<in> set ?hs" "h \<noteq> []" for h
  proof -
    from traverse_extends[OF that(1)] have "\<forall>m \<in> set h. \<exists>t. m \<in> set (fst (match k sub t))"
      by simp
    with assms have "\<forall>m \<in> set h. converted m \<noteq> NON_CAPTURING"
      unfolding capturing_def by blast
    with that(2) show ?thesis by (rule build_history_capturing)
  qed
  from traverse_head[of k "match k sub" s] show ?thesis
  proof
    assume "?hs = []"
    then show ?thesis unfolding Suc
      by (simp add: fst_one_or_more_match fst_zero_or_more_match)
  next
    assume "\<exists>hs. ?hs = [] # hs \<and> (\<forall>h \<in> set hs. h \<noteq> [])"
    then obtain hs where hs: "?hs = [] # hs" "\<forall>h \<in> set hs. h \<noteq> []" by blast
    with conv have "\<forall>h \<in> set hs. converted (build_history s h) \<noteq> VList []" by auto
    then have "filter (\<lambda>m. converted m \<noteq> VList []) (map (build_history s) hs)
               = map (build_history s) hs"
      by (simp add: filter_id_conv)
    then show ?thesis unfolding Suc
      by (simp add: fst_one_or_more_match fst_zero_or_more_match hs(1) build_history_def)
  qed
qed

lemma exact_capturing: "capturing (Exact ex)"
  by (auto simp: capturing_def exact_match_def split: option.splits)

text \<open>
  What the test \<open>m.converted != []\<close> of \<open>OneOrMore.match\<close> computes: the results of
  \<open>ZeroOrMore\<close> whose converted value is not the empty list, in the same order. When the
  subspec never yields the marker, that is every result but the one of zero repetitions.
\<close>

lemma one_or_more_match_filter:
  "match n (OneOrMore sub) s
     = (filter (\<lambda>m. converted m \<noteq> VList []) (fst (match n (ZeroOrMore sub) s)),
        snd (match n (ZeroOrMore sub) s))"
  by (simp add: match_OneOrMore prod_eq_iff fst_one_or_more_match snd_one_or_more_match)

lemma convert_one_or_more_literal:
  "convert (end_terminated (one_or_more (PyStr ''a'')))
     = Inr (Sequence [OneOrMore (NonCapturing (Exact ''a'')), End])"
  by (simp add: one_or_more_def end_terminated_def)

lemma match_repeated_literal:
  "match 3 (ZeroOrMore (NonCapturing (Exact ''a''))) ''a''
     = ([Match (VList []) [] ''a'', Match (VList []) ''a'' []], Done)"
  "match 3 (OneOrMore (NonCapturing (Exact ''a''))) ''a'' = ([], Done)"
  "match 4 (Sequence [OneOrMore (NonCapturing (Exact ''a'')), End]) ''a'' = ([], Done)"
  by code_simp+

text \<open>
  C5. \<open>OneOrMore(X)\<close> is to yield the results of \<open>ZeroOrMore(X)\<close> without the result of zero
  repetitions, and the comment of \<open>OneOrMore.match\<close> says so: exactly like \<open>ZeroOrMore\<close>, but
  without the empty match. The code tests \<open>m.converted != []\<close> instead. With the subspec
  \<open>NonCapturing(Exact("a"))\<close> on \<open>"a"\<close>, \<open>ZeroOrMore\<close> yields the result of zero repetitions and
  the result of one repetition, which captured \<open>"a"\<close>; \<open>OneOrMore\<close> yields nothing, and
  \<open>match(one_or_more("a"), "a")\<close> of \<open>arg_parse\<close> returns \<open>None\<close>.
\<close>

theorem one_or_more_drops_repetition:
  "match (n + 3) (ZeroOrMore (NonCapturing (Exact ''a''))) ''a''
     = ([Match (VList []) [] ''a'', Match (VList []) ''a'' []], Done)
   \<and> match (n + 3) (OneOrMore (NonCapturing (Exact ''a''))) ''a'' = ([], Done)
   \<and> arg_parse_match (n + 4) (one_or_more (PyStr ''a'')) ''a'' = Some (Inr VNone)"
proof (intro conjI)
  show "match (n + 3) (ZeroOrMore (NonCapturing (Exact ''a''))) ''a''
     = ([Match (VList []) [] ''a'', Match (VList []) ''a'' []], Done)"
    using match_stable[of 3 "ZeroOrMore (NonCapturing (Exact ''a''))" "''a''" "n + 3"]
    by (simp add: match_repeated_literal(1))
  show "match (n + 3) (OneOrMore (NonCapturing (Exact ''a''))) ''a'' = ([], Done)"
    using match_stable[of 3 "OneOrMore (NonCapturing (Exact ''a''))" "''a''" "n + 3"]
    by (simp add: match_repeated_literal(2))
  have "match (n + 4) (Sequence [OneOrMore (NonCapturing (Exact ''a'')), End]) ''a'' = ([], Done)"
    using match_stable[of 4 "Sequence [OneOrMore (NonCapturing (Exact ''a'')), End]" "''a''" "n + 4"]
    by (simp add: match_repeated_literal(3))
  then show "arg_parse_match (n + 4) (one_or_more (PyStr ''a'')) ''a'' = Some (Inr VNone)"
    by (simp add: arg_parse_match_def convert_one_or_more_literal first_match_def)
qed

section \<open>Termination of the repetition\<close>

lemma snd_for_each_not_Cutoff:
  "\<forall>x \<in> set xs. snd (body x) \<noteq> Cutoff \<Longrightarrow> snd (for_each body xs) \<noteq> Cutoff"
  by (induction xs) (auto split: prod.splits ending.splits)

lemma snd_then_gen_yield: "snd (then_gen ([x], Done) g) = snd g"
  by (simp add: then_gen_def)

lemma traverse_returns:
  assumes splits: "\<And>t m. m \<in> set (fst (sub t)) \<Longrightarrow> splits_input t m"
    and shrinks: "\<And>t m. m \<in> set (fst (sub t)) \<Longrightarrow> length (rest m) < length t"
    and sub: "\<And>t. suffix t s0 \<Longrightarrow> snd (sub t) \<noteq> Cutoff"
  shows "suffix s s0 \<Longrightarrow> length s < k \<Longrightarrow> snd (traverse k sub s history) \<noteq> Cutoff"
proof (induction k arbitrary: s history)
  case 0
  then show ?case by simp
next
  case (Suc k)
  have "snd (traverse k sub (rest m) (history @ [m])) \<noteq> Cutoff" if m: "m \<in> set (fst (sub s))" for m
  proof -
    from splits[OF m] have "suffix (rest m) s" by (auto simp: splits_input_def suffix_def)
    with Suc.prems(1) have "suffix (rest m) s0" by (auto simp: suffix_def)
    moreover from shrinks[OF m] Suc.prems(2) have "length (rest m) < k" by simp
    ultimately show ?thesis by (rule Suc.IH)
  qed
  then have "snd (for_each (\<lambda>m. traverse k sub (rest m) (history @ [m])) (fst (sub s))) \<noteq> Cutoff"
    by (intro snd_for_each_not_Cutoff) simp
  with sub[OF Suc.prems(1)] show ?case
    by (simp add: snd_then_gen_yield snd_for_gen)
qed

lemma match_stays_final:
  assumes "snd (match n sp s) \<noteq> Cutoff" and "n \<le> k"
  shows "snd (match k sp s) \<noteq> Cutoff"
  using match_stable[OF assms] assms(1) by simp

lemma returns_on_suffixes:
  assumes "\<forall>t. returns sp t"
  shows "\<exists>N. \<forall>t. suffix t s \<longrightarrow> (\<forall>k \<ge> N. snd (match k sp t) \<noteq> Cutoff)"
proof (induction s)
  case Nil
  from assms obtain n where "snd (match n sp []) \<noteq> Cutoff" unfolding returns_def by blast
  then have "\<forall>k \<ge> n. snd (match k sp []) \<noteq> Cutoff"
    using match_stays_final by blast
  then show ?case by auto
next
  case (Cons c s)
  then obtain N where N: "\<forall>t. suffix t s \<longrightarrow> (\<forall>k \<ge> N. snd (match k sp t) \<noteq> Cutoff)" by blast
  from assms obtain n where "snd (match n sp (c # s)) \<noteq> Cutoff" unfolding returns_def by blast
  then have n: "\<forall>k \<ge> n. snd (match k sp (c # s)) \<noteq> Cutoff"
    using match_stays_final by blast
  have "\<forall>t. suffix t (c # s) \<longrightarrow> (\<forall>k \<ge> max n N. snd (match k sp t) \<noteq> Cutoff)"
    using N n by (auto simp: suffix_Cons)
  then show ?case by blast
qed

lemma snd_zero_or_more_match: "snd (zero_or_more_match k sub s) = snd (traverse k sub s [])"
  by (simp add: zero_or_more_match_def snd_for_gen for_each_yield_one)

lemma exact_end_bounds:
  "exact_end ex s k = Some e \<Longrightarrow> k \<le> length s \<Longrightarrow> length ex \<le> e \<and> e \<le> length s"
proof (induction k)
  case 0
  then show ?case by (auto split: if_splits dest: prefix_length_le)
next
  case (Suc k)
  then show ?case
    by (auto split: if_splits dest!: prefix_length_le)
qed

lemma exact_shrinks:
  assumes "ex \<noteq> []" and "m \<in> set (fst (match n (Exact ex) s))"
  shows "length (rest m) < length s"
proof -
  from assms(2) obtain e where e: "exact_end ex s (length (takeWhile is_space s)) = Some e"
    and m: "m = Match (VStr ex) (take e s) (drop e s)"
    by (auto simp: exact_match_def split: option.splits)
  have "length (takeWhile is_space s) \<le> length s" by (rule length_takeWhile_le)
  from exact_end_bounds[OF e this] have b: "length ex \<le> e" "e \<le> length s"
    by simp_all
  from assms(1) b have "0 < e" "e \<le> length s" by (cases ex; simp)+
  then show ?thesis unfolding m by simp
qed

lemma strictly_shrinking_Exact: "ex \<noteq> [] \<Longrightarrow> strictly_shrinking (Exact ex)"
  unfolding strictly_shrinking_def using exact_shrinks by blast

lemma returns_Exact: "returns (Exact ex) t"
  unfolding returns_def by (auto simp: exact_match_def split: option.splits)

text \<open>
  C8, as the code has it. When every match of \<open>X\<close> leaves a strictly shorter rest and the
  generator of \<open>X\<close> itself stops on every input, the generator \<open>ZeroOrMore(X).match(s)\<close>
  stops: some bound shows its end, and every larger bound shows the same finite list of
  results. The depth of \<open>traverse\<close> needed is at most the length of \<open>s\<close> plus one.
\<close>

theorem zero_or_more_returns:
  assumes "strictly_shrinking sub" and "\<forall>t. returns sub t"
  shows "\<exists>n. snd (match n (ZeroOrMore sub) s) \<noteq> Cutoff
           \<and> (\<forall>k \<ge> n. match k (ZeroOrMore sub) s = match n (ZeroOrMore sub) s)"
proof -
  from returns_on_suffixes[OF assms(2), of s] obtain N where
    N: "\<And>t k. suffix t s \<Longrightarrow> N \<le> k \<Longrightarrow> snd (match k sub t) \<noteq> Cutoff" by blast
  define k where "k = max N (Suc (length s))"
  have "snd (traverse k (match k sub) s []) \<noteq> Cutoff"
  proof (rule traverse_returns[where ?s0.0 = s])
    show "splits_input t m" if "m \<in> set (fst (match k sub t))" for t m
      using that by (rule match_splits)
    show "length (rest m) < length t" if "m \<in> set (fst (match k sub t))" for t m
      using that assms(1) unfolding strictly_shrinking_def by blast
    show "snd (match k sub t) \<noteq> Cutoff" if "suffix t s" for t
      using N[OF that, of k] by (simp add: k_def)
    show "suffix s s" by simp
    show "length s < k" by (simp add: k_def)
  qed
  then have r: "snd (match (Suc k) (ZeroOrMore sub) s) \<noteq> Cutoff"
    by (simp add: snd_zero_or_more_match)
  then have "\<forall>j \<ge> Suc k. match j (ZeroOrMore sub) s = match (Suc k) (ZeroOrMore sub) s"
    using match_stable[of "Suc k" "ZeroOrMore sub" s] by blast
  with r show ?thesis by blast
qed

theorem zero_or_more_returns_witness:
  "strictly_shrinking (Exact ''a'') \<and> (\<forall>t. returns (Exact ''a'') t)
   \<and> (\<exists>n. snd (match n (ZeroOrMore (Exact ''a'')) ''aa'') \<noteq> Cutoff
           \<and> (\<forall>k \<ge> n. match k (ZeroOrMore (Exact ''a'')) ''aa''
                          = match n (ZeroOrMore (Exact ''a'')) ''aa''))
   \<and> match 4 (ZeroOrMore (Exact ''a'')) ''aa''
       = ([Match (VList []) [] ''aa'', Match (VList [VStr ''a'']) ''a'' ''a'',
           Match (VList [VStr ''a'', VStr ''a'']) ''aa'' []], Done)"
proof -
  have s: "strictly_shrinking (Exact ''a'')" by (rule strictly_shrinking_Exact) simp
  have r: "\<forall>t. returns (Exact ''a'') t" by (simp add: returns_Exact)
  have v: "match 4 (ZeroOrMore (Exact ''a'')) ''aa''
       = ([Match (VList []) [] ''aa'', Match (VList [VStr ''a'']) ''a'' ''a'',
           Match (VList [VStr ''a'', VStr ''a'']) ''aa'' []], Done)"
    by code_simp
  note t = zero_or_more_returns[OF s r, of "''aa''"]
  show ?thesis
    by (intro conjI) (rule s, rule r, rule t, rule v)
qed

text \<open>
  The claim asks for the strictly shorter rests only. They do not make the generator stop:
  every match of \<open>hanging_spec\<close> leaves a strictly shorter rest, and
  \<open>ZeroOrMore(hanging_spec).match("a")\<close> yields two results and then never returns, inside the
  match of the subspec on \<open>""\<close>.
\<close>

lemma exact_end_empty: "exact_end [] s k = Some k"
  by (cases k) simp_all

lemma match_NonCapturing_Exact_empty:
  "match (Suc j) (NonCapturing (Exact [])) t
     = ([Match NON_CAPTURING (takeWhile is_space t) (dropWhile is_space t)], Done)"
  by (simp add: exact_match_def exact_end_empty for_gen_def replace_converted_def
        takeWhile_eq_take[symmetric] dropWhile_eq_drop[symmetric])

lemma traverse_no_progress_sub:
  assumes "\<And>t. (\<exists>m. sub t = ([m], Done)) \<or> sub t = ([], Cutoff)"
  shows "snd (traverse k sub t history) = Cutoff"
proof (induction k arbitrary: t history)
  case 0
  then show ?case by simp
next
  case (Suc k)
  from assms[of t] show ?case
  proof
    assume "\<exists>m. sub t = ([m], Done)"
    then obtain m where m: "sub t = ([m], Done)" by blast
    have "snd (traverse k sub (rest m) (history @ [m])) = Cutoff" by (rule Suc.IH)
    then have "snd (for_each (\<lambda>m. traverse k sub (rest m) (history @ [m])) [m]) = Cutoff"
      by (cases "traverse k sub (rest m) (history @ [m])") simp
    then show ?thesis
      by (simp only: traverse.simps snd_then_gen_yield snd_for_gen m fst_conv snd_conv)
         simp
  next
    assume "sub t = ([], Cutoff)"
    then show ?thesis by (simp add: snd_then_gen_yield snd_for_gen)
  qed
qed

lemma traverse_no_progress:
  "snd (traverse k (match j (NonCapturing (Exact []))) t history) = Cutoff"
proof (rule traverse_no_progress_sub)
  fix u
  show "(\<exists>m. match j (NonCapturing (Exact [])) u = ([m], Done))
        \<or> match j (NonCapturing (Exact [])) u = ([], Cutoff)"
  proof (cases j)
    case 0
    then show ?thesis by simp
  next
    case (Suc i)
    show ?thesis unfolding Suc match_NonCapturing_Exact_empty by blast
  qed
qed

lemma OneOrMore_NonCapturing_never_yields:
  "fst (match n (OneOrMore (NonCapturing sp)) t) = []"
proof (cases n)
  case 0
  then show ?thesis by simp
next
  case (Suc k)
  have "converted (build_history t h) = VList []"
    if "h \<in> set (fst (traverse k (match k (NonCapturing sp)) t []))" for h
  proof -
    from traverse_extends[OF that]
    have "\<forall>m \<in> set h. \<exists>u. m \<in> set (fst (match k (NonCapturing sp) u))" by simp
    moreover have "converted m = NON_CAPTURING"
      if "m \<in> set (fst (match k (NonCapturing sp) u))" for m u
      using that by (cases k) (auto dest!: for_gen_item simp: replace_converted_def)
    ultimately have "\<forall>m \<in> set h. converted m = NON_CAPTURING" by blast
    then have "filter (\<lambda>v. v \<noteq> NON_CAPTURING) (map converted h) = []"
      by (simp add: filter_empty_conv)
    then show ?thesis by (simp add: build_history_def)
  qed
  then show ?thesis unfolding Suc
    by (simp add: fst_one_or_more_match fst_zero_or_more_match filter_empty_conv)
qed

lemma OneOrMore_NonCapturing_Exact_empty_hangs:
  "match n (OneOrMore (NonCapturing (Exact []))) t = ([], Cutoff)"
proof -
  have "snd (match n (OneOrMore (NonCapturing (Exact []))) t) = Cutoff"
    by (cases n) (simp_all add: snd_one_or_more_match snd_zero_or_more_match traverse_no_progress)
  with OneOrMore_NonCapturing_never_yields[of n "Exact []" t] show ?thesis
    by (simp add: prod_eq_iff)
qed

lemma match_hanging_spec:
  "match n hanging_spec t = (if n = 0 then [] else fst (exact_match ''a'' t), Cutoff)"
proof (cases n)
  case 0
  then show ?thesis by (simp add: hanging_spec_def)
next
  case (Suc k)
  have "snd (exact_match ''a'' t) = Done"
    by (simp add: exact_match_def split: option.splits)
  then show ?thesis unfolding Suc hanging_spec_def
    by (cases "exact_match ''a'' t") (simp add: OneOrMore_NonCapturing_Exact_empty_hangs)
qed

lemma strictly_shrinking_hanging_spec: "strictly_shrinking hanging_spec"
proof -
  have "length (rest m) < length s" if "m \<in> set (fst (match n hanging_spec s))" for n s m
  proof -
    from that have "m \<in> set (fst (match 0 (Exact ''a'') s))"
      by (simp add: match_hanging_spec split: if_splits)
    then show ?thesis by (rule exact_shrinks[rotated]) simp
  qed
  then show ?thesis unfolding strictly_shrinking_def by blast
qed

lemma snd_for_each_Cutoff:
  "\<forall>x \<in> set xs. snd (body x) = Cutoff \<Longrightarrow>
   snd (for_each body xs) = (if xs = [] then Done else Cutoff)"
  by (induction xs) (auto split: prod.splits ending.splits)

lemma traverse_hangs:
  assumes "\<And>t. snd (sub t) = Cutoff"
  shows "snd (traverse k sub s history) = Cutoff"
proof (induction k arbitrary: s history)
  case 0
  then show ?case by simp
next
  case (Suc k)
  have "snd (for_each (\<lambda>m. traverse k sub (rest m) (history @ [m])) (fst (sub s)))
        = (if fst (sub s) = [] then Done else Cutoff)"
    by (rule snd_for_each_Cutoff) (simp add: Suc.IH)
  then show ?case
    by (simp add: snd_then_gen_yield snd_for_gen assms)
qed

lemma ZeroOrMore_hanging_spec_hangs: "snd (match n (ZeroOrMore hanging_spec) s) = Cutoff"
proof (cases n)
  case 0
  then show ?thesis by simp
next
  case (Suc k)
  have "snd (traverse k (match k hanging_spec) s []) = Cutoff"
    by (rule traverse_hangs) (simp add: match_hanging_spec)
  then show ?thesis unfolding Suc by (simp add: snd_zero_or_more_match)
qed

theorem zero_or_more_hangs_counterexample:
  "strictly_shrinking hanging_spec
   \<and> \<not> returns (ZeroOrMore hanging_spec) ''a''
   \<and> match 3 (ZeroOrMore hanging_spec) ''a''
       = ([Match (VList []) [] ''a'', Match (VList [VStr ''a'']) ''a'' []], Cutoff)"
proof (intro conjI)
  show "strictly_shrinking hanging_spec" by (rule strictly_shrinking_hanging_spec)
  show "\<not> returns (ZeroOrMore hanging_spec) ''a''"
    by (simp add: returns_def ZeroOrMore_hanging_spec_hangs)
  show "match 3 (ZeroOrMore hanging_spec) ''a''
       = ([Match (VList []) [] ''a'', Match (VList [VStr ''a'']) ''a'' []], Cutoff)"
    by code_simp
qed

end
